theory Spec2Isabelle
  imports Main "HOL-Library.AList"
begin

section \<open>Trees\<close>

text \<open>
  Both source files represent a tree as a plain object
  \<^verbatim>\<open>{ label: number, children: [Tree, ...] }\<close>.  Labels are integers, the children
  are an ordered list.
\<close>

datatype tree = Node (label: int) (children: "tree list")

text \<open>Node count: one for the node itself plus the node counts of its children.\<close>

fun nodeCount :: "tree \<Rightarrow> int" where
  "nodeCount (Node l cs) = 1 + sum_list (map nodeCount cs)"

section \<open>The embedding matcher (tree-worker.js)\<close>

text \<open>
  \<^verbatim>\<open>embeds\<close>, \<^verbatim>\<open>rootEmbeds\<close> and \<^verbatim>\<open>matchChildren\<close> are mutually recursive.  The
  \<^verbatim>\<open>for\<close> loop of \<^verbatim>\<open>embeds\<close> over \<^verbatim>\<open>B.children\<close> is \<open>embeds_loop\<close>; the
  indexed loop of \<^verbatim>\<open>matchChildren\<close> is \<open>matchChildren_loop\<close>, whose last argument is
  the part of \<^verbatim>\<open>tkids\<close> from index \<^verbatim>\<open>i\<close> on, so that \<^verbatim>\<open>tkids.slice(i + 1)\<close> is its tail.
\<close>

text \<open>
  The termination measure: every call either descends into a strictly smaller part of
  the target, or keeps the target and moves from a function to its helper.  The pattern
  plays no part in it.
\<close>

fun target_size :: "(tree \<times> tree + tree \<times> tree list) + tree \<times> tree + tree list \<times> tree list
    + tree \<times> tree list \<times> tree list \<Rightarrow> nat" where
  "target_size (Inl (Inl (A, B))) = size B"
| "target_size (Inl (Inr (A, kids))) = size_list size kids"
| "target_size (Inr (Inl (p, t))) = size t"
| "target_size (Inr (Inr (Inl (pkids, tkids)))) = size_list size tkids"
| "target_size (Inr (Inr (Inr (first, rest, tkids)))) = size_list size tkids"

fun call_rank :: "(tree \<times> tree + tree \<times> tree list) + tree \<times> tree + tree list \<times> tree list
    + tree \<times> tree list \<times> tree list \<Rightarrow> nat" where
  "call_rank (Inl (Inl _)) = 1"
| "call_rank (Inl (Inr _)) = 0"
| "call_rank (Inr (Inl _)) = 0"
| "call_rank (Inr (Inr (Inl _))) = 1"
| "call_rank (Inr (Inr (Inr _))) = 0"

lemma size_children_less: "size_list size (children t) < size t"
  by (cases t) simp

lemma size_children_less_Suc: "size_list size (children t) < Suc (size t + k)"
  using size_children_less [of t] by simp

function embeds :: "tree \<Rightarrow> tree \<Rightarrow> bool"
  and embeds_loop :: "tree \<Rightarrow> tree list \<Rightarrow> bool"
  and rootEmbeds :: "tree \<Rightarrow> tree \<Rightarrow> bool"
  and matchChildren :: "tree list \<Rightarrow> tree list \<Rightarrow> bool"
  and matchChildren_loop :: "tree \<Rightarrow> tree list \<Rightarrow> tree list \<Rightarrow> bool"
where
  "embeds A B = (if rootEmbeds A B then True else embeds_loop A (children B))"
| "embeds_loop A [] = False"
| "embeds_loop A (child # others) = (if embeds A child then True else embeds_loop A others)"
| "rootEmbeds pattern target =
     (if label pattern \<noteq> label target then False
      else if children pattern = [] then True
      else matchChildren (children pattern) (children target))"
| "matchChildren [] tkids = True"
| "matchChildren (first # rest) tkids = matchChildren_loop first rest tkids"
| "matchChildren_loop first rest [] = False"
| "matchChildren_loop first rest (tchild # after) =
     (if rootEmbeds first tchild \<and> matchChildren rest after then True
      else if matchChildren (first # rest) (children tchild) then True
      else matchChildren_loop first rest after)"
  by pat_completeness auto

termination embeds
  by (relation "measures [target_size, call_rank]")
     (auto simp: size_children_less size_children_less_Suc)

declare embeds.simps [simp del] rootEmbeds.simps [simp del]

subsection \<open>The matcher with a bounded call stack\<close>

text \<open>
  The same five functions with a budget for the depth of the call stack: a call made with
  no budget left does not return (\<open>None\<close>).  The conditionals of the source
  become \<open>orElse\<close> and \<open>andAlso\<close>, which look at their second argument only when the
  first has returned and did not decide the result, so a call that does not return stops
  the caller as well.
\<close>

definition orElse :: "bool option \<Rightarrow> bool option \<Rightarrow> bool option" where
  "orElse a b = (case a of None \<Rightarrow> None | Some True \<Rightarrow> Some True | Some False \<Rightarrow> b)"

definition andAlso :: "bool option \<Rightarrow> bool option \<Rightarrow> bool option" where
  "andAlso a b = (case a of None \<Rightarrow> None | Some False \<Rightarrow> Some False | Some True \<Rightarrow> b)"

function (sequential) embeds_fuel :: "nat \<Rightarrow> tree \<Rightarrow> tree \<Rightarrow> bool option"
  and embeds_loop_fuel :: "nat \<Rightarrow> tree \<Rightarrow> tree list \<Rightarrow> bool option"
  and rootEmbeds_fuel :: "nat \<Rightarrow> tree \<Rightarrow> tree \<Rightarrow> bool option"
  and matchChildren_fuel :: "nat \<Rightarrow> tree list \<Rightarrow> tree list \<Rightarrow> bool option"
  and matchChildren_loop_fuel :: "nat \<Rightarrow> tree \<Rightarrow> tree list \<Rightarrow> tree list \<Rightarrow> bool option"
where
  "embeds_fuel 0 A B = None"
| "embeds_fuel (Suc k) A B = orElse (rootEmbeds_fuel k A B) (embeds_loop_fuel k A (children B))"
| "embeds_loop_fuel 0 A kids = None"
| "embeds_loop_fuel (Suc k) A [] = Some False"
| "embeds_loop_fuel (Suc k) A (child # others) =
     orElse (embeds_fuel k A child) (embeds_loop_fuel k A others)"
| "rootEmbeds_fuel 0 pattern target = None"
| "rootEmbeds_fuel (Suc k) pattern target =
     (if label pattern \<noteq> label target then Some False
      else if children pattern = [] then Some True
      else matchChildren_fuel k (children pattern) (children target))"
| "matchChildren_fuel 0 pkids tkids = None"
| "matchChildren_fuel (Suc k) [] tkids = Some True"
| "matchChildren_fuel (Suc k) (first # rest) tkids = matchChildren_loop_fuel k first rest tkids"
| "matchChildren_loop_fuel 0 first rest tkids = None"
| "matchChildren_loop_fuel (Suc k) first rest [] = Some False"
| "matchChildren_loop_fuel (Suc k) first rest (tchild # after) =
     orElse (andAlso (rootEmbeds_fuel k first tchild) (matchChildren_fuel k rest after))
       (orElse (matchChildren_fuel k (first # rest) (children tchild))
          (matchChildren_loop_fuel k first rest after))"
  by pat_completeness auto

fun fuel_of :: "((nat \<times> tree \<times> tree) + (nat \<times> tree \<times> tree list)) +
    (nat \<times> tree \<times> tree) + (nat \<times> tree list \<times> tree list) + (nat \<times> tree \<times> tree list \<times> tree list) \<Rightarrow> nat" where
  "fuel_of (Inl (Inl (k, _))) = k"
| "fuel_of (Inl (Inr (k, _))) = k"
| "fuel_of (Inr (Inl (k, _))) = k"
| "fuel_of (Inr (Inr (Inl (k, _)))) = k"
| "fuel_of (Inr (Inr (Inr (k, _)))) = k"

termination embeds_fuel
  by (relation "measure fuel_of") auto

definition fuel_bound :: "tree \<Rightarrow> nat" where
  "fuel_bound B = 4 * nat (nodeCount B)"

section \<open>The worker protocol and \<^verbatim>\<open>isValidExtension\<close> (main.js)\<close>

text \<open>
  A request is \<^verbatim>\<open>{ id, pattern, target }\<close>, a response \<^verbatim>\<open>{ id, result }\<close>; the
  worker's \<^verbatim>\<open>onmessage\<close> answers a request with \<^verbatim>\<open>embeds(pattern, target)\<close> under
  the same id.
\<close>

record msg =
  msg_id :: nat
  pattern :: tree
  target :: tree

record response =
  response_id :: nat
  result :: bool

definition onmessage :: "msg \<Rightarrow> response" where
  "onmessage e = \<lparr>response_id = msg_id e, result = embeds (pattern e) (target e)\<rparr>"

text \<open>
  The pool of main.js, with the state of its workers and promises.  Workers are
  numbered.  \<open>posted\<close> lists the requests handed to workers by \<^verbatim>\<open>postMessage\<close> and not
  yet answered, with the worker that received each.  \<open>callbacks\<close> lists the ids that
  have a callback, \<open>settled\<close> the promises that have been resolved, by the id of their
  request, with the value they resolved with.  Ids are handed out once, so the id stands
  for the promise.  \<open>new_WorkerPool\<close> is the constructor.
\<close>

record WorkerPool =
  poolSize :: nat
  workers :: "nat list"
  idleWorkers :: "nat list"
  queue :: "msg list"
  nextId :: nat
  callbacks :: "nat list"
  posted :: "(nat \<times> msg) list"
  settled :: "(nat \<times> bool) list"

definition new_WorkerPool :: "nat \<Rightarrow> WorkerPool" where
  "new_WorkerPool n =
     \<lparr>poolSize = n, workers = [0..<n], idleWorkers = [0..<n], queue = [], nextId = 1,
      callbacks = [], posted = [], settled = []\<rparr>"

text \<open>
  \<^verbatim>\<open>_dispatch\<close>: while there is an idle worker and a queued request, pop the last idle
  worker, shift the first request and post it.
\<close>

function dispatch_loop :: "WorkerPool \<Rightarrow> WorkerPool" where
  "dispatch_loop pool =
     (if idleWorkers pool \<noteq> [] \<and> queue pool \<noteq> [] then
        dispatch_loop
          (pool\<lparr>idleWorkers := butlast (idleWorkers pool),
                queue := tl (queue pool),
                posted := posted pool @ [(last (idleWorkers pool), hd (queue pool))]\<rparr>)
      else pool)"
  by pat_completeness auto
termination
  by (relation "measure (\<lambda>pool. length (queue pool))") auto

declare dispatch_loop.simps [simp del]

definition dispatch :: "WorkerPool \<Rightarrow> WorkerPool" where
  "dispatch pool = (if queue pool = [] then pool else dispatch_loop pool)"

text \<open>
  \<^verbatim>\<open>submitEmbed\<close> takes the next id, registers the callback, queues the request and
  dispatches; it returns the promise.
\<close>

definition submitEmbed :: "WorkerPool \<Rightarrow> tree \<Rightarrow> tree \<Rightarrow> nat \<times> WorkerPool" where
  "submitEmbed pool p t =
     (let i = nextId pool;
          m = \<lparr>msg_id = i, pattern = p, target = t\<rparr>
      in (i, dispatch (pool\<lparr>nextId := i + 1,
                             callbacks := (if i \<in> set (callbacks pool) then callbacks pool
                                           else callbacks pool @ [i]),
                             queue := queue pool @ [m]\<rparr>)))"

text \<open>
  \<^verbatim>\<open>_onWorkerMessage\<close>: a response resolves the promise of its id if that id has a
  callback, and removes the callback; the worker becomes idle, and the pool dispatches.
\<close>

definition onWorkerMessage :: "WorkerPool \<Rightarrow> nat \<Rightarrow> response \<Rightarrow> WorkerPool" where
  "onWorkerMessage pool worker e =
     (let i = response_id e;
          pool1 = (if i \<in> set (callbacks pool)
                   then pool\<lparr>callbacks := removeAll i (callbacks pool),
                             settled := settled pool @ [(i, result e)]\<rparr>
                   else pool)
      in dispatch (pool1\<lparr>idleWorkers := idleWorkers pool1 @ [worker]\<rparr>))"

text \<open>
  \<^verbatim>\<open>terminate\<close> stops the workers, so what was posted is never answered, and clears
  the pool.
\<close>

definition terminate :: "WorkerPool \<Rightarrow> WorkerPool" where
  "terminate pool = pool\<lparr>workers := [], idleWorkers := [], callbacks := [], queue := [], posted := []\<rparr>"

text \<open>
  One turn of the event loop: the worker that holds the posted request number \<open>j\<close>
  answers it with \<open>onmessage\<close>, and the pool handles the response.  Which worker
  answers next is not determined; a schedule, a list of numbers, makes the choices, and
  the properties below hold for every schedule.
\<close>

definition worker_event :: "nat \<Rightarrow> WorkerPool \<Rightarrow> WorkerPool" where
  "worker_event j pool =
     (let (worker, m) = posted pool ! j;
          pool1 = pool\<lparr>posted := take j (posted pool) @ drop (Suc j) (posted pool)\<rparr>
      in onWorkerMessage pool1 worker (onmessage m))"

definition next_choice :: "nat list \<Rightarrow> nat" where
  "next_choice sched = (case sched of [] \<Rightarrow> 0 | c # _ \<Rightarrow> c)"

text \<open>The number of requests that are queued or posted; every turn answers one.\<close>

definition pending :: "WorkerPool \<Rightarrow> nat" where
  "pending pool = length (queue pool) + length (posted pool)"

lemma pending_dispatch_loop: "pending (dispatch_loop pool) = pending pool"
proof (induction pool rule: dispatch_loop.induct)
  case (1 pool)
  show ?case
  proof (cases "idleWorkers pool \<noteq> [] \<and> queue pool \<noteq> []")
    case True
    then have "pending (dispatch_loop pool) = pending (pool\<lparr>idleWorkers := butlast (idleWorkers pool),
                queue := tl (queue pool),
                posted := posted pool @ [(last (idleWorkers pool), hd (queue pool))]\<rparr>)"
      using "1.IH" by (subst dispatch_loop.simps) simp
    also have "\<dots> = pending pool"
      using True by (simp add: pending_def)
    finally show ?thesis .
  next
    case False
    then show ?thesis by (subst dispatch_loop.simps) auto
  qed
qed

lemma pending_dispatch: "pending (dispatch pool) = pending pool"
  by (simp add: dispatch_def pending_dispatch_loop)

lemma pending_worker_event:
  "j < length (posted pool) \<Longrightarrow> pending (worker_event j pool) < pending pool"
  by (auto simp: worker_event_def onWorkerMessage_def Let_def pending_dispatch split: prod.splits)
     (auto simp: pending_def)

text \<open>
  \<^verbatim>\<open>await\<close> on a promise: if it is settled, go on with its value.  Otherwise the
  event loop turns until it is.  If no request is posted, no response can arrive: the
  promise stays pending and the caller never goes on (\<open>None\<close>).
\<close>

function await :: "nat list \<Rightarrow> WorkerPool \<Rightarrow> nat \<Rightarrow> (bool \<times> WorkerPool \<times> nat list) option" where
  "await sched pool p =
     (case map_of (settled pool) p of
        Some v \<Rightarrow> Some (v, pool, sched)
      | None \<Rightarrow>
          if posted pool = [] then None
          else await (tl sched)
                 (worker_event (next_choice sched mod length (posted pool)) pool) p)"
  by pat_completeness auto
termination
  by (relation "measure (\<lambda>(sched, pool, p). pending pool)")
     (auto intro!: pending_worker_event)

declare await.simps [simp del]

text \<open>The first loop submits one request per element of \<^verbatim>\<open>seq\<close>, in order.\<close>

fun submitAll :: "WorkerPool \<Rightarrow> tree list \<Rightarrow> tree \<Rightarrow> nat list \<times> WorkerPool" where
  "submitAll pool [] t = ([], pool)"
| "submitAll pool (prev # others) t =
     (let (p, pool1) = submitEmbed pool prev t;
          (ps, pool2) = submitAll pool1 others t
      in (p # ps, pool2))"

text \<open>The second loop awaits the promises in order and returns at the first true result.\<close>

fun awaitAll :: "nat list \<Rightarrow> WorkerPool \<Rightarrow> nat list \<Rightarrow> (bool \<times> WorkerPool \<times> nat list) option" where
  "awaitAll sched pool [] = Some (True, pool, sched)"
| "awaitAll sched pool (p # ps) =
     (case await sched pool p of
        None \<Rightarrow> None
      | Some (embedsResult, pool1, sched1) \<Rightarrow>
          if embedsResult then Some (False, pool1, sched1) else awaitAll sched1 pool1 ps)"

text \<open>
  \<^verbatim>\<open>isValidExtension\<close> returns its result with the pool and the rest of the schedule,
  or does not return.
\<close>

definition isValidExtension ::
  "nat list \<Rightarrow> tree list \<Rightarrow> tree \<Rightarrow> WorkerPool \<Rightarrow> (bool \<times> WorkerPool \<times> nat list) option" where
  "isValidExtension sched seq t pool =
     (if seq = [] then Some (True, pool, sched)
      else let (promises, pool1) = submitAll pool seq t
           in awaitAll sched pool1 promises)"

text \<open>
  The states of a pool that can answer.  \<open>inflight\<close> are the requests that are queued
  or posted.  In \<open>pool_ok\<close>, the ids of these requests and of the settled promises lie
  below \<^verbatim>\<open>nextId\<close>, a worker is idle or at work, and no request waits while a worker
  is idle.  The constructor with at least one worker gives such a state, and
  \<^verbatim>\<open>submitEmbed\<close> and the turns of the event loop keep it.  \<open>tracks pool m\<close> says that
  the promise of the request \<open>m\<close> is settled with the worker's result for \<open>m\<close>, or
  is pending with its callback in place and \<open>m\<close>, and no other request of the same id,
  queued or posted.
\<close>

definition inflight :: "WorkerPool \<Rightarrow> msg set" where
  "inflight pool = set (queue pool) \<union> snd ` set (posted pool)"

definition pool_ok :: "WorkerPool \<Rightarrow> bool" where
  "pool_ok pool =
     ((\<forall>m \<in> inflight pool. msg_id m < nextId pool) \<and>
      (\<forall>i \<in> fst ` set (settled pool). i < nextId pool) \<and>
      (idleWorkers pool \<noteq> [] \<or> posted pool \<noteq> []) \<and>
      (queue pool \<noteq> [] \<longrightarrow> idleWorkers pool = []))"

definition tracks :: "WorkerPool \<Rightarrow> msg \<Rightarrow> bool" where
  "tracks pool m =
     (map_of (settled pool) (msg_id m) = Some (result (onmessage m)) \<or>
      (map_of (settled pool) (msg_id m) = None \<and> msg_id m \<in> set (callbacks pool) \<and>
       m \<in> inflight pool \<and> (\<forall>m' \<in> inflight pool. msg_id m' = msg_id m \<longrightarrow> m' = m)))"

section \<open>Compositions and the cartesian product (main.js)\<close>

text \<open>
  \<^verbatim>\<open>compositions(total)\<close> is a generator with finitely many results; the model is the
  list of what it yields, in order.  The loop \<^verbatim>\<open>for (first = 1; first <= total; first++)\<close>
  runs over \<open>[1..n]\<close>, which is empty for a negative \<^verbatim>\<open>total\<close> (written \<open>n\<close> below).
\<close>

function compositions :: "int \<Rightarrow> int list list" where
  "compositions n =
     (if n = 0 then [[]]
      else concat (map (\<lambda>first. map (\<lambda>rest. first # rest) (compositions (n - first)))
                       [1..n]))"
  by pat_completeness auto
termination
  by (relation "measure nat") auto

declare compositions.simps [simp del]

text \<open>The number of compositions of \<open>k\<close>, used to state the count below.\<close>

fun count_of :: "nat \<Rightarrow> nat" where
  "count_of k = (if k = 0 then 1 else 2 ^ (k - 1))"

section \<open>The canonical key (main.js)\<close>

text \<open>
  \<^verbatim>\<open>String(label)\<close> of an integer below \<open>10\<^sup>2\<^sup>1\<close> in absolute value is its decimal
  numeral, with a minus sign for a negative one.  From \<open>10\<^sup>2\<^sup>1\<close> on JavaScript writes
  numbers in exponent notation, which \<open>String\<close> below does not follow: it is
  \<^verbatim>\<open>String(label)\<close> for \<open>\<bar>label\<bar> < 10\<^sup>2\<^sup>1\<close> only, and what is proved about keys of
  arbitrary trees is proved for labels in that range (\<open>decimal_labels\<close>).
\<close>

definition digit_char :: "nat \<Rightarrow> char" where
  "digit_char d = char_of (48 + d)"

function digits :: "nat \<Rightarrow> string" where
  "digits m = (if m < 10 then [digit_char m] else digits (m div 10) @ [digit_char (m mod 10)])"
  by pat_completeness auto
termination
  by (relation "measure (\<lambda>m. m)") auto

declare digits.simps [simp del]

definition String :: "int \<Rightarrow> string" where
  "String l = (if l < 0 then CHR ''-'' # digits (nat (- l)) else digits (nat l))"

text \<open>\<^verbatim>\<open>Array.prototype.join\<close> on an array of strings.\<close>

fun join :: "string \<Rightarrow> string list \<Rightarrow> string" where
  "join sep [] = []"
| "join sep [x] = x"
| "join sep (x # y # ys) = x @ sep @ join sep (y # ys)"

fun treeKey :: "tree \<Rightarrow> string" where
  "treeKey (Node l cs) =
     (if cs = [] then String l
      else String l @ ''('' @ join '','' (map treeKey cs) @ '')'')"



text \<open>Auxiliary notions for reading a key back.\<close>

definition isDigit :: "char \<Rightarrow> bool" where
  "isDigit c = (48 \<le> (of_char c :: nat) \<and> (of_char c :: nat) < 58)"

definition digits_val :: "string \<Rightarrow> nat" where
  "digits_val s = foldl (\<lambda>a c. 10 * a + ((of_char c :: nat) - 48)) 0 s"




section \<open>The tree enumeration (main.js)\<close>

text \<open>
  \<^verbatim>\<open>cartesian\<close> extends every prefix built so far by every item of the next list.
\<close>

definition cartesian :: "'a list list \<Rightarrow> 'a list list" where
  "cartesian ls =
     (if length ls = 0 then [[]]
      else fold (\<lambda>list acc. concat (map (\<lambda>prefix. map (\<lambda>item. prefix @ [item]) list) acc))
             ls [[]])"

text \<open>
  The table \<^verbatim>\<open>seen\<close> maps keys to trees and keeps the order of insertion
  (\<^verbatim>\<open>Array.from(seen.values())\<close>, or \<^verbatim>\<open>Object.values(seen)\<close> for keys that are not
  array indices): an association list that grows at the end.  \<open>seen_add\<close> is the body
  of the innermost loop: \<^verbatim>\<open>if (!seen.has(key)) seen.set(key, tree)\<close>.
\<close>

definition seen_add :: "tree \<Rightarrow> (string \<times> tree) list \<Rightarrow> (string \<times> tree) list" where
  "seen_add tree seen =
     (let key = treeKey tree
      in if map_of seen key = None then seen @ [(key, tree)] else seen)"

text \<open>
  The table stays a map from the key of a tree to that tree, with every key once.
\<close>

definition seen_inv :: "(string \<times> tree) list \<Rightarrow> bool" where
  "seen_inv seen = (distinct (map fst seen) \<and> (\<forall>(k, t) \<in> set seen. k = treeKey t))"

text \<open>
  The cache maps the key \<^verbatim>\<open>`${size}:${n}`\<close>, modelled by the pair \<open>(size, n)\<close>, to the
  list stored for it.  \<^verbatim>\<open>treesOfSize\<close> reads and writes it, so it takes the cache and
  returns the new one with its result.  The model follows the synchronous version
  (the second \<^verbatim>\<open>treesOfSize\<close> of main.js); the version on IndexedDB runs the same
  steps on a cache that outlives the run.
\<close>

type_synonym cache = "((int \<times> int) \<times> tree list) list"

lemma compositions_0: "compositions 0 = [[]]"
  by (simp add: compositions.simps)

lemma compositions_parts:
  "c \<in> set (compositions n) \<Longrightarrow> (\<forall>p \<in> set c. 1 \<le> p) \<and> sum_list c = n"
proof (induction n arbitrary: c rule: compositions.induct)
  case (1 n)
  show ?case
  proof (cases "n = 0")
    case True
    with "1.prems" show ?thesis by (simp add: compositions.simps)
  next
    case False
    with "1.prems" obtain first rest where
      f: "first \<in> set [1..n]" and r: "rest \<in> set (compositions (n - first))"
      and c: "c = first # rest"
      by (subst (asm) compositions.simps) auto
    from "1.IH" [OF False f r] f c show ?thesis by auto
  qed
qed

lemma compositions_part_less:
  assumes "c \<in> set (compositions m)" "part \<in> set c"
  shows "1 \<le> part \<and> part \<le> m"
proof -
  from assms(1) have p: "\<forall>p \<in> set c. 1 \<le> p" and s: "sum_list c = m"
    using compositions_parts by blast+
  from p have "\<forall>p \<in> set c. 0 \<le> p" by auto
  then have "part \<le> sum_list c"
    using assms(2) by (simp add: member_le_sum_list)
  with p s assms(2) show ?thesis by auto
qed

function treesOfSize :: "cache \<Rightarrow> int \<Rightarrow> int \<Rightarrow> tree list \<times> cache" where
  "treesOfSize cache sz n =
     (case map_of cache (sz, n) of
        Some cached \<Rightarrow> (cached, cache)
      | None \<Rightarrow>
          if sz = 1 then
            (let result = map (\<lambda>label. Node label []) [1..n]
             in (result, AList.update (sz, n) result cache))
          else
            (let (seen, cache1) =
                   fold (\<lambda>rootLabel (seen, cache).
                     fold (\<lambda>comp (seen, cache).
                       (let (subtreeLists, cache') =
                              fold (\<lambda>part (lists, cache).
                                      (let (ts, cache') = treesOfSize cache part n
                                       in (lists @ [ts], cache')))
                                comp ([], cache);
                            combos = cartesian subtreeLists
                        in (fold (\<lambda>childrenCombo seen.
                                    seen_add (Node rootLabel childrenCombo) seen)
                              combos seen,
                            cache')))
                       (compositions (sz - 1)) (seen, cache))
                     [1..n] ([], cache);
                 result = map snd seen
             in (result, AList.update (sz, n) result cache1)))"
  by pat_completeness auto
termination
  by (relation "measure (\<lambda>(cache, sz, n). nat sz)") (auto dest: compositions_part_less)

declare treesOfSize.simps [simp del]

lemma fold_cong_fun [fundef_cong]:
  "xs = ys \<Longrightarrow> (\<And>x. x \<in> set ys \<Longrightarrow> f x = g x) \<Longrightarrow> fold f xs = fold g ys"
  by (rule ext) (auto intro: fold_cong)

text \<open>
  What \<^verbatim>\<open>treesOfSize\<close> computes when nothing is found in the cache: the same loops
  without the cache.  It is the reference to which the cached function is compared.
\<close>

function treesOfSize0 :: "int \<Rightarrow> int \<Rightarrow> tree list" where
  "treesOfSize0 sz n =
     (if sz = 1 then map (\<lambda>label. Node label []) [1..n]
      else map snd
        (fold (\<lambda>rootLabel seen.
           fold (\<lambda>comp seen.
             fold (\<lambda>childrenCombo seen. seen_add (Node rootLabel childrenCombo) seen)
               (cartesian (map (\<lambda>part. treesOfSize0 part n) comp)) seen)
             (compositions (sz - 1)) seen)
           [1..n] []))"
  by pat_completeness auto
termination
  by (relation "measure (\<lambda>(sz, n). nat sz)") (auto dest: compositions_part_less)

declare treesOfSize0.simps [simp del]

text \<open>The trees offered to \<^verbatim>\<open>seen\<close> for a size other than 1, in the order of the loops.\<close>

definition candidates :: "int \<Rightarrow> int \<Rightarrow> tree list" where
  "candidates sz n =
     concat (map (\<lambda>rootLabel.
       concat (map (\<lambda>comp. map (Node rootLabel) (cartesian (map (\<lambda>part. treesOfSize0 part n) comp)))
                 (compositions (sz - 1))))
       [1..n])"

text \<open>
  A cache holds, under each key, the list that \<^verbatim>\<open>treesOfSize\<close> computes for it.  The
  caches that the program can reach are the empty one and those left by calls of
  \<^verbatim>\<open>treesOfSize\<close>.
\<close>

definition cache_ok :: "cache \<Rightarrow> bool" where
  "cache_ok c = (\<forall>sz n ts. map_of c (sz, n) = Some ts \<longrightarrow> ts = treesOfSize0 sz n)"

inductive reachable :: "cache \<Rightarrow> bool" where
  empty: "reachable []"
| call: "reachable c \<Longrightarrow> reachable (snd (treesOfSize c sz n))"

text \<open>Trees whose labels all lie in \<open>1..n\<close>.\<close>

fun labels_in :: "int \<Rightarrow> tree \<Rightarrow> bool" where
  "labels_in n (Node l cs) = (1 \<le> l \<and> l \<le> n \<and> (\<forall>c \<in> set cs. labels_in n c))"

subsection \<open>The generator \<^verbatim>\<open>allTrees\<close>\<close>

text \<open>
  \<^verbatim>\<open>allTrees\<close> never returns; what can be observed is the sequence of the trees it
  yields.  \<open>allTrees_loop k\<close> is the list of the trees yielded during the first \<open>k\<close>
  rounds of its \<^verbatim>\<open>while (true)\<close> loop, from a given size on.  The synchronous version
  starts at size 1.  The version on IndexedDB first asks \<^verbatim>\<open>getMaxCachedSizeForN\<close> for
  the largest size cached for \<open>n\<close> and starts there, if there is one.
\<close>

fun allTrees_loop :: "nat \<Rightarrow> cache \<Rightarrow> int \<Rightarrow> int \<Rightarrow> tree list \<times> cache" where
  "allTrees_loop 0 cache sz n = ([], cache)"
| "allTrees_loop (Suc k) cache sz n =
     (let (ts, cache1) = treesOfSize cache sz n;
          (later, cache2) = allTrees_loop k cache1 (sz + 1) n
      in (ts @ later, cache2))"

definition allTrees :: "nat \<Rightarrow> cache \<Rightarrow> int \<Rightarrow> tree list \<times> cache" where
  "allTrees k cache n = allTrees_loop k cache 1 n"

definition getMaxCachedSizeForN :: "cache \<Rightarrow> int \<Rightarrow> int" where
  "getMaxCachedSizeForN cache n =
     fold (\<lambda>((sizePart, nPart), trees) maxSize.
             if nPart = n \<and> sizePart > maxSize then sizePart else maxSize)
       cache 0"

definition allTrees_idb :: "nat \<Rightarrow> cache \<Rightarrow> int \<Rightarrow> tree list \<times> cache" where
  "allTrees_idb k cache n =
     (let maxSize = getMaxCachedSizeForN cache n;
          sz = (if maxSize > 0 then maxSize else 1)
      in allTrees_loop k cache sz n)"


section \<open>Properties of the matcher\<close>

lemma matchChildren_same:
  "(\<And>c. c \<in> set cs \<Longrightarrow> rootEmbeds c c) \<Longrightarrow> matchChildren cs cs"
  by (induction cs) auto

lemma rootEmbeds_refl: "rootEmbeds t t"
  by (induction t) (auto simp: rootEmbeds.simps intro: matchChildren_same)

text \<open>
  C3: \<^verbatim>\<open>embeds(A, A)\<close> is true for every tree \<open>A\<close>.
\<close>

theorem embeds_reflexive: "embeds A A"
  by (simp add: embeds.simps rootEmbeds_refl)

text \<open>
  C4: the pattern \<open>1(2)\<close> embeds into the target \<open>1(3, 2)\<close>, and the pattern
  \<open>1(2, 3)\<close> does not: the order of the siblings is kept.
\<close>

theorem embeds_sibling_order:
  "embeds (Node 1 [Node 2 []]) (Node 1 [Node 3 [], Node 2 []]) \<and>
   \<not> embeds (Node 1 [Node 2 [], Node 3 []]) (Node 1 [Node 3 [], Node 2 []])"
  by (simp add: embeds.simps rootEmbeds.simps)

lemma nodeCount_children: "nodeCount t = 1 + sum_list (map nodeCount (children t))"
  by (cases t) simp

lemma nodeCount_pos: "0 < nodeCount t"
proof (induction t)
  case (Node l cs)
  then have "0 \<le> sum_list (map nodeCount cs)"
    by (intro sum_list_nonneg) (auto intro: less_imp_le)
  then show ?case by simp
qed

lemma nodeCounts_nonneg: "0 \<le> sum_list (map nodeCount ts)"
  by (intro sum_list_nonneg) (auto intro: less_imp_le nodeCount_pos)

lemma embeds_nodeCount_all:
  "(embeds A B \<longrightarrow> nodeCount A \<le> nodeCount B)"
  "(embeds_loop A kids \<longrightarrow> nodeCount A \<le> sum_list (map nodeCount kids))"
  "(rootEmbeds p t \<longrightarrow> nodeCount p \<le> nodeCount t)"
  "(matchChildren pkids tkids \<longrightarrow>
      sum_list (map nodeCount pkids) \<le> sum_list (map nodeCount tkids))"
  "(matchChildren_loop first rest tkids' \<longrightarrow>
      nodeCount first + sum_list (map nodeCount rest) \<le> sum_list (map nodeCount tkids'))"
proof (induction A B and A kids and p t and pkids tkids and first rest tkids'
    rule: embeds_embeds_loop_rootEmbeds_matchChildren_matchChildren_loop.induct)
  case (1 A B)
  then show ?case
    using nodeCount_children [of B] by (auto simp: embeds.simps)
next
  case (2 A)
  then show ?case by simp
next
  case (3 A child others)
  then show ?case
    using nodeCounts_nonneg [of others] nodeCount_pos [of child] by auto
next
  case (4 pattern target)
  then show ?case
    using nodeCount_children [of pattern] nodeCount_children [of target]
      nodeCounts_nonneg [of "children target"]
    by (auto simp: rootEmbeds.simps simp del: nodeCount.simps)
next
  case (5 tkids)
  then show ?case by (simp add: nodeCounts_nonneg)
next
  case (6 first rest tkids)
  then show ?case by simp
next
  case (7 first rest)
  then show ?case by simp
next
  case (8 first rest tchild after)
  then show ?case
    using nodeCount_children [of tchild] nodeCounts_nonneg [of after] nodeCount_pos [of tchild]
    by auto
qed

text \<open>
  C9: if \<^verbatim>\<open>embeds(A, B)\<close> is true, then \<open>A\<close> has at most as many nodes as \<open>B\<close>.
\<close>

theorem embeds_nodeCount_le: "embeds A B \<Longrightarrow> nodeCount A \<le> nodeCount B"
  using embeds_nodeCount_all(1) [of A B] by blast

theorem embeds_nodeCount_le_witness:
  "embeds (Node 1 [Node 2 []]) (Node 1 [Node 3 [], Node 2 []]) \<and>
   nodeCount (Node 1 [Node 2 []]) \<le> nodeCount (Node 1 [Node 3 [], Node 2 []])"
proof -
  have h: "embeds (Node 1 [Node 2 []]) (Node 1 [Node 3 [], Node 2 []])"
    by (simp add: embeds.simps rootEmbeds.simps)
  show ?thesis using h embeds_nodeCount_le [OF h] by blast
qed

subsection \<open>Termination with a bounded call stack\<close>

lemma fuel_suffices:
  "\<forall>k > 2 * size B + 1. embeds_fuel k A B = Some (embeds A B)"
  "\<forall>k > 2 * size_list size kids. embeds_loop_fuel k A kids = Some (embeds_loop A kids)"
  "\<forall>k > 2 * size t. rootEmbeds_fuel k p t = Some (rootEmbeds p t)"
  "\<forall>k > 2 * size_list size tkids + 1. matchChildren_fuel k pkids tkids = Some (matchChildren pkids tkids)"
  "\<forall>k > 2 * size_list size tkids'.
      matchChildren_loop_fuel k first rest tkids' = Some (matchChildren_loop first rest tkids')"
proof (induction A B and A kids and p t and pkids tkids and first rest tkids'
    rule: embeds_embeds_loop_rootEmbeds_matchChildren_matchChildren_loop.induct)
  case (1 A B)
  show ?case
  proof (intro allI impI)
    fix k assume "2 * size B + 1 < k"
    then obtain k' where k: "k = Suc k'" and k': "2 * size B < k'"
      by (cases k) auto
    have "2 * size_list size (children B) < k'"
      using k' size_children_less [of B] by simp
    with 1 k' show "embeds_fuel k A B = Some (embeds A B)"
      by (simp add: k embeds.simps orElse_def)
  qed
next
  case (2 A)
  show ?case
  proof (intro allI impI)
    fix k :: nat assume "2 * size_list size ([]::tree list) < k"
    then obtain k' where k: "k = Suc k'" by (cases k) auto
    show "embeds_loop_fuel k A [] = Some (embeds_loop A [])" by (simp add: k)
  qed
next
  case (3 A child others)
  show ?case
  proof (intro allI impI)
    fix k assume "2 * size_list size (child # others) < k"
    then obtain k' where k: "k = Suc k'" and k': "2 * size child + 1 < k'" "2 * size_list size others < k'"
      by (cases k) auto
    with 3 show "embeds_loop_fuel k A (child # others) = Some (embeds_loop A (child # others))"
      by (simp add: k orElse_def)
  qed
next
  case (4 pattern target)
  show ?case
  proof (intro allI impI)
    fix k assume "2 * size target < k"
    then obtain k' where k: "k = Suc k'" and k': "2 * size_list size (children target) + 1 < k'"
      using size_children_less [of target] by (cases k) auto
    with 4 show "rootEmbeds_fuel k pattern target = Some (rootEmbeds pattern target)"
      by (simp add: k rootEmbeds.simps)
  qed
next
  case (5 tkids)
  show ?case
  proof (intro allI impI)
    fix k :: nat assume "2 * size_list size tkids + 1 < k"
    then obtain k' where k: "k = Suc k'" by (cases k) auto
    show "matchChildren_fuel k [] tkids = Some (matchChildren [] tkids)" by (simp add: k)
  qed
next
  case (6 first rest tkids)
  show ?case
  proof (intro allI impI)
    fix k :: nat assume "2 * size_list size tkids + 1 < k"
    then obtain k' where k: "k = Suc k'" and k': "2 * size_list size tkids < k'" by (cases k) auto
    with 6 show "matchChildren_fuel k (first # rest) tkids = Some (matchChildren (first # rest) tkids)"
      by (simp add: k)
  qed
next
  case (7 first rest)
  show ?case
  proof (intro allI impI)
    fix k :: nat assume "2 * size_list size ([]::tree list) < k"
    then obtain k' where k: "k = Suc k'" by (cases k) auto
    show "matchChildren_loop_fuel k first rest [] = Some (matchChildren_loop first rest [])"
      by (simp add: k)
  qed
next
  case (8 first rest tchild after)
  show ?case
  proof (intro allI impI)
    fix k assume "2 * size_list size (tchild # after) < k"
    then obtain k' where k: "k = Suc k'" and k': "2 * size tchild < k'"
      "2 * size_list size after + 1 < k'" "2 * size_list size after < k'"
      "2 * size_list size (children tchild) + 1 < k'"
      using size_children_less [of tchild] by (cases k) auto
    have a: "rootEmbeds_fuel k' first tchild = Some (rootEmbeds first tchild)"
      using 8(1) k' by blast
    have b: "matchChildren_fuel k' rest after = Some (matchChildren rest after)"
      using 8(2) k' by blast
    show "matchChildren_loop_fuel k first rest (tchild # after)
        = Some (matchChildren_loop first rest (tchild # after))"
    proof (cases "rootEmbeds first tchild \<and> matchChildren rest after")
      case True
      then show ?thesis using a b by (simp add: k orElse_def andAlso_def del: matchChildren.simps)
    next
      case False
      then have c: "matchChildren_fuel k' (first # rest) (children tchild)
          = Some (matchChildren (first # rest) (children tchild))"
        using 8(3) k' by blast
      show ?thesis
      proof (cases "matchChildren (first # rest) (children tchild)")
        case True
        then show ?thesis using a b c False
          by (auto simp add: k orElse_def andAlso_def simp del: matchChildren.simps split: bool.split)
      next
        case F2: False
        then have d: "matchChildren_loop_fuel k' first rest after = Some (matchChildren_loop first rest after)"
          using 8(4) False k' by blast
        show ?thesis using a b c d False F2
          by (auto simp add: k orElse_def andAlso_def simp del: matchChildren.simps split: bool.split)
      qed
    qed
  qed
qed


lemma size_list_nodeCount:
  "(\<And>c. c \<in> set cs \<Longrightarrow> int (size c) + 1 = 2 * nodeCount c)
   \<Longrightarrow> int (size_list size cs) = 2 * sum_list (map nodeCount cs)"
  by (induction cs) (auto simp: algebra_simps)

lemma size_nodeCount: "int (size t) + 1 = 2 * nodeCount t"
proof (induction t)
  case (Node l cs)
  then have "int (size_list size cs) = 2 * sum_list (map nodeCount cs)"
    by (intro size_list_nodeCount) auto
  then show ?case by simp
qed

lemma fuel_bound_size: "fuel_bound B = 2 * size B + 2"
  using size_nodeCount [of B] nodeCount_pos [of B] by (simp add: fuel_bound_def)

text \<open>
  C8: the matcher is total.  For all trees \<open>A\<close> and \<open>B\<close>, \<^verbatim>\<open>embeds(A, B)\<close>,
  \<^verbatim>\<open>rootEmbeds(A, B)\<close> and \<^verbatim>\<open>matchChildren(A.children, B.children)\<close> return a boolean
  once the call stack may grow to four frames per node of the target; the value is the
  one of the functions defined above, whose termination proof uses a measure on the
  target alone.
\<close>

theorem matcher_total:
  "fuel_bound B \<le> k \<Longrightarrow>
     embeds_fuel k A B = Some (embeds A B) \<and>
     rootEmbeds_fuel k A B = Some (rootEmbeds A B) \<and>
     matchChildren_fuel k (children A) (children B)
       = Some (matchChildren (children A) (children B))"
proof -
  assume "fuel_bound B \<le> k"
  then have k: "2 * size B + 1 < k"
    by (simp add: fuel_bound_size)
  then have "2 * size B < k" "2 * size_list size (children B) + 1 < k"
    using size_children_less [of B] by simp_all
  with k show ?thesis
    using fuel_suffices(1) [of B A] fuel_suffices(3) [of B A]
      fuel_suffices(4) [of "children B" "children A"]
    by blast
qed

theorem matcher_total_witness:
  "fuel_bound (Node 1 [Node 3 [], Node 2 []]) \<le> 12 \<and>
   embeds_fuel 12 (Node 1 [Node 2 [], Node 3 []]) (Node 1 [Node 3 [], Node 2 []]) = Some False \<and>
   rootEmbeds_fuel 12 (Node 1 [Node 2 [], Node 3 []]) (Node 1 [Node 3 [], Node 2 []]) = Some False \<and>
   matchChildren_fuel 12 [Node 2 [], Node 3 []] [Node 3 [], Node 2 []] = Some False"
proof -
  have h: "fuel_bound (Node 1 [Node 3 [], Node 2 []]) \<le> 12"
    by (simp add: fuel_bound_def)
  show ?thesis
    using h matcher_total [OF h, of "Node 1 [Node 2 [], Node 3 []]"]
    by (simp add: embeds.simps rootEmbeds.simps)
qed

section \<open>Properties of \<^verbatim>\<open>isValidExtension\<close>\<close>

lemma dispatch_loop_keeps:
  "inflight (dispatch_loop pool) = inflight pool \<and>
   callbacks (dispatch_loop pool) = callbacks pool \<and>
   settled (dispatch_loop pool) = settled pool \<and>
   nextId (dispatch_loop pool) = nextId pool \<and>
   (idleWorkers pool \<noteq> [] \<or> posted pool \<noteq> [] \<longrightarrow>
      idleWorkers (dispatch_loop pool) \<noteq> [] \<or> posted (dispatch_loop pool) \<noteq> []) \<and>
   (queue (dispatch_loop pool) \<noteq> [] \<longrightarrow> idleWorkers (dispatch_loop pool) = [])"
proof (induction pool rule: dispatch_loop.induct)
  case (1 pool)
  show ?case
  proof (cases "idleWorkers pool \<noteq> [] \<and> queue pool \<noteq> []")
    case True
    let ?p = "pool\<lparr>idleWorkers := butlast (idleWorkers pool),
                queue := tl (queue pool),
                posted := posted pool @ [(last (idleWorkers pool), hd (queue pool))]\<rparr>"
    have eq: "dispatch_loop pool = dispatch_loop ?p"
      using True by (subst dispatch_loop.simps) simp
    have "inflight ?p = inflight pool"
      using True by (cases "queue pool") (auto simp: inflight_def)
    with "1.IH" [OF True] show ?thesis
      unfolding eq by simp
  next
    case False
    then have "dispatch_loop pool = pool" by (subst dispatch_loop.simps) auto
    with False show ?thesis by auto
  qed
qed

lemma dispatch_keeps:
  "inflight (dispatch pool) = inflight pool \<and>
   callbacks (dispatch pool) = callbacks pool \<and>
   settled (dispatch pool) = settled pool \<and>
   nextId (dispatch pool) = nextId pool \<and>
   (idleWorkers pool \<noteq> [] \<or> posted pool \<noteq> [] \<longrightarrow>
      idleWorkers (dispatch pool) \<noteq> [] \<or> posted (dispatch pool) \<noteq> []) \<and>
   (queue (dispatch pool) \<noteq> [] \<longrightarrow> idleWorkers (dispatch pool) = [])"
  using dispatch_loop_keeps [of pool] by (simp add: dispatch_def)

lemma pool_ok_new: "0 < n \<Longrightarrow> pool_ok (new_WorkerPool n)"
  by (simp add: pool_ok_def new_WorkerPool_def inflight_def)

lemma submitEmbed_ok:
  assumes ok: "pool_ok pool" and s: "submitEmbed pool p t = (i, pool')"
  defines "m \<equiv> \<lparr>msg_id = i, pattern = p, target = t\<rparr>"
  shows "i = nextId pool" "pool_ok pool'" "tracks pool' m"
    "\<And>m0. tracks pool m0 \<Longrightarrow> tracks pool' m0"
proof -
  let ?q = "pool\<lparr>nextId := nextId pool + 1,
      callbacks := (if nextId pool \<in> set (callbacks pool) then callbacks pool
                    else callbacks pool @ [nextId pool]),
      queue := queue pool @ [\<lparr>msg_id = nextId pool, pattern = p, target = t\<rparr>]\<rparr>"
  from s have i: "i = nextId pool" and p': "pool' = dispatch ?q"
    by (auto simp: submitEmbed_def Let_def)
  show "i = nextId pool" by (rule i)
  note d = dispatch_keeps [of ?q]
  have infl: "inflight pool' = insert m (inflight pool)"
    using d by (auto simp: p' inflight_def m_def i)
  have cb: "set (callbacks pool') = insert i (set (callbacks pool))"
    using d by (auto simp: p' i)
  have st: "settled pool' = settled pool" and ni: "nextId pool' = nextId pool + 1"
    using d by (simp_all add: p')
  have live: "idleWorkers pool' \<noteq> [] \<or> posted pool' \<noteq> []"
    "queue pool' \<noteq> [] \<longrightarrow> idleWorkers pool' = []"
    using d ok by (auto simp: p' pool_ok_def)
  show "pool_ok pool'"
    using ok live unfolding pool_ok_def infl st ni by (auto simp: m_def i)
  have none: "map_of (settled pool) i = None"
    using ok by (auto simp: pool_ok_def i map_of_eq_None_iff)
  have fresh: "\<forall>m' \<in> inflight pool. msg_id m' \<noteq> i"
    using ok by (auto simp: pool_ok_def i)
  show "tracks pool' m"
    unfolding tracks_def infl st cb using none fresh by (auto simp: m_def)
  show "tracks pool' m0" if "tracks pool m0" for m0
    using that fresh unfolding tracks_def infl st cb by (auto simp: m_def)
qed

lemma set_without_nth:
  assumes "j < length xs"
  shows "set (take j xs @ drop (Suc j) xs) \<subseteq> set xs"
    and "set xs \<subseteq> insert (xs ! j) (set (take j xs @ drop (Suc j) xs))"
proof -
  have "xs = take j xs @ xs ! j # drop (Suc j) xs"
    using assms by (rule id_take_nth_drop)
  then have "set xs = set (take j xs @ xs ! j # drop (Suc j) xs)" by simp
  then show "set (take j xs @ drop (Suc j) xs) \<subseteq> set xs"
    and "set xs \<subseteq> insert (xs ! j) (set (take j xs @ drop (Suc j) xs))"
    by auto
qed

lemma worker_event_ok:
  assumes ok: "pool_ok pool" and j: "j < length (posted pool)"
  shows "pool_ok (worker_event j pool)"
    and "\<And>m. tracks pool m \<Longrightarrow> tracks (worker_event j pool) m"
proof -
  obtain w m0 where wm: "posted pool ! j = (w, m0)" by (cases "posted pool ! j")
  let ?rest = "take j (posted pool) @ drop (Suc j) (posted pool)"
  let ?p1 = "pool\<lparr>posted := ?rest\<rparr>"
  let ?p2 = "if msg_id m0 \<in> set (callbacks pool)
       then ?p1\<lparr>callbacks := removeAll (msg_id m0) (callbacks pool),
                 settled := settled pool @ [(msg_id m0, result (onmessage m0))]\<rparr>
       else ?p1"
  let ?p3 = "?p2\<lparr>idleWorkers := idleWorkers ?p2 @ [w]\<rparr>"
  have ev: "worker_event j pool = dispatch ?p3"
    by (simp add: worker_event_def wm onWorkerMessage_def Let_def onmessage_def)
  note d = dispatch_keeps [of ?p3]
  have m0: "m0 \<in> inflight pool"
    using j wm by (force simp: inflight_def in_set_conv_nth)
  have sub: "inflight ?p3 \<subseteq> inflight pool"
    and sup: "inflight pool \<subseteq> insert m0 (inflight ?p3)"
    using set_without_nth [OF j] wm by (auto simp: inflight_def)
  have infl: "inflight (worker_event j pool) = inflight ?p3"
    using d by (simp add: ev)
  have ni: "nextId (worker_event j pool) = nextId pool"
    using d by (simp add: ev)
  have st: "settled (worker_event j pool) =
      (if msg_id m0 \<in> set (callbacks pool)
       then settled pool @ [(msg_id m0, result (onmessage m0))] else settled pool)"
    using d by (simp add: ev)
  have cb: "callbacks (worker_event j pool) =
      (if msg_id m0 \<in> set (callbacks pool)
       then removeAll (msg_id m0) (callbacks pool) else callbacks pool)"
    using d by (simp add: ev)
  have live: "idleWorkers (worker_event j pool) \<noteq> [] \<or> posted (worker_event j pool) \<noteq> []"
    "queue (worker_event j pool) \<noteq> [] \<longrightarrow> idleWorkers (worker_event j pool) = []"
    using d by (auto simp: ev)
  have m0id: "msg_id m0 < nextId pool"
    using ok m0 by (simp add: pool_ok_def)
  show "pool_ok (worker_event j pool)"
    using ok live sub m0id unfolding pool_ok_def infl ni st by auto
  show "tracks (worker_event j pool) m" if t: "tracks pool m" for m
  proof (cases "map_of (settled pool) (msg_id m)")
    case (Some v)
    with t have "v = result (onmessage m)" by (auto simp: tracks_def)
    with Some show ?thesis
      unfolding tracks_def st by (auto simp: map_add_def)
  next
    case None
    with t have c: "msg_id m \<in> set (callbacks pool)" and mi: "m \<in> inflight pool"
      and own: "\<forall>m' \<in> inflight pool. msg_id m' = msg_id m \<longrightarrow> m' = m"
      by (auto simp: tracks_def)
    show ?thesis
    proof (cases "msg_id m0 = msg_id m")
      case True
      with own m0 have "m0 = m" by blast
      with c None show ?thesis
        unfolding tracks_def st by (auto simp: map_add_def)
    next
      case False
      then have "m \<noteq> m0" by auto
      with mi sup have "m \<in> inflight ?p3" by blast
      moreover have "\<forall>m' \<in> inflight ?p3. msg_id m' = msg_id m \<longrightarrow> m' = m"
        using own sub by blast
      ultimately show ?thesis
        using None c False unfolding tracks_def st cb infl by (auto simp: map_add_def)
    qed
  qed
qed

lemma await_ok:
  assumes "pool_ok pool" "tracks pool m"
  shows "\<exists>pool' sched'. await sched pool (msg_id m) = Some (result (onmessage m), pool', sched')
      \<and> pool_ok pool' \<and> (\<forall>m0. tracks pool m0 \<longrightarrow> tracks pool' m0)"
  using assms
proof (induction "pending pool" arbitrary: pool sched rule: less_induct)
  case less
  show ?case
  proof (cases "map_of (settled pool) (msg_id m)")
    case (Some v)
    with less.prems(2) have "v = result (onmessage m)" by (auto simp: tracks_def)
    with Some less.prems(1) show ?thesis
      by (subst await.simps) auto
  next
    case None
    with less.prems(2) have mi: "m \<in> inflight pool" by (auto simp: tracks_def)
    have ne: "posted pool \<noteq> []"
      using mi less.prems(1) by (auto simp: inflight_def pool_ok_def)
    let ?j = "next_choice sched mod length (posted pool)"
    have j: "?j < length (posted pool)" using ne by simp
    let ?p = "worker_event ?j pool"
    have a: "await sched pool (msg_id m) = await (tl sched) ?p (msg_id m)"
      using None ne by (subst await.simps) simp
    have ok: "pool_ok ?p" and tr: "\<And>m0. tracks pool m0 \<Longrightarrow> tracks ?p m0"
      using worker_event_ok [OF less.prems(1) j] by blast+
    from less.hyps [OF pending_worker_event [OF j] ok tr [OF less.prems(2)], of "tl sched"]
    obtain pool' sched' where
      "await (tl sched) ?p (msg_id m) = Some (result (onmessage m), pool', sched')"
      "pool_ok pool'" "\<forall>m0. tracks ?p m0 \<longrightarrow> tracks pool' m0"
      by blast
    with a tr show ?thesis by auto
  qed
qed

lemma awaitAll_ok:
  assumes "pool_ok pool" "\<forall>m \<in> set ms. tracks pool m"
  shows "\<exists>pool' sched'. awaitAll sched pool (map msg_id ms)
        = Some (\<not> (\<exists>m \<in> set ms. result (onmessage m)), pool', sched')
      \<and> pool_ok pool' \<and> (\<forall>m0. tracks pool m0 \<longrightarrow> tracks pool' m0)"
  using assms
proof (induction ms arbitrary: pool sched)
  case Nil
  then show ?case by simp
next
  case (Cons m ms)
  from await_ok [of pool m sched] Cons.prems
  obtain pool1 sched1 where a: "await sched pool (msg_id m) = Some (result (onmessage m), pool1, sched1)"
    and ok1: "pool_ok pool1" and tr1: "\<forall>m0. tracks pool m0 \<longrightarrow> tracks pool1 m0"
    by auto
  show ?case
  proof (cases "result (onmessage m)")
    case True
    with a ok1 tr1 show ?thesis by auto
  next
    case False
    from Cons.prems(2) tr1 have "\<forall>m \<in> set ms. tracks pool1 m" by simp
    from Cons.IH [OF ok1 this, of sched1]
    obtain pool' sched' where "awaitAll sched1 pool1 (map msg_id ms)
        = Some (\<not> (\<exists>m \<in> set ms. result (onmessage m)), pool', sched')"
      "pool_ok pool'" "\<forall>m0. tracks pool1 m0 \<longrightarrow> tracks pool' m0"
      by blast
    with a False tr1 show ?thesis by auto
  qed
qed

lemma submitAll_ok:
  assumes "pool_ok pool"
  shows "\<exists>ms pool'. submitAll pool seq t = (map msg_id ms, pool') \<and> pool_ok pool' \<and>
      (\<forall>m \<in> set ms. tracks pool' m) \<and>
      map (\<lambda>m. result (onmessage m)) ms = map (\<lambda>s. embeds s t) seq \<and>
      (\<forall>m0. tracks pool m0 \<longrightarrow> tracks pool' m0)"
  using assms
proof (induction seq arbitrary: pool)
  case Nil
  then show ?case by simp
next
  case (Cons s seq)
  obtain i pool1 where se: "submitEmbed pool s t = (i, pool1)" by (cases "submitEmbed pool s t")
  let ?m = "\<lparr>msg_id = i, pattern = s, target = t\<rparr>"
  note e = submitEmbed_ok [OF Cons.prems se]
  from Cons.IH [OF e(2)]
  obtain ms pool' where sa: "submitAll pool1 seq t = (map msg_id ms, pool')"
    and ok': "pool_ok pool'" and tr: "\<forall>m \<in> set ms. tracks pool' m"
    and v: "map (\<lambda>m. result (onmessage m)) ms = map (\<lambda>s. embeds s t) seq"
    and keep: "\<forall>m0. tracks pool1 m0 \<longrightarrow> tracks pool' m0"
    by blast
  have "submitAll pool (s # seq) t = (map msg_id (?m # ms), pool')"
    by (simp add: se sa)
  moreover have "\<forall>m \<in> set (?m # ms). tracks pool' m"
    using tr keep e(3) by simp
  moreover have "map (\<lambda>m. result (onmessage m)) (?m # ms) = map (\<lambda>s. embeds s t) (s # seq)"
    using v by (simp add: onmessage_def)
  moreover have "\<forall>m0. tracks pool m0 \<longrightarrow> tracks pool' m0"
    using e(4) keep by blast
  ultimately show ?case using ok' by blast
qed

lemma isValidExtension_ok:
  assumes "pool_ok pool"
  shows "\<exists>pool' sched'. isValidExtension sched seq t pool
        = Some (\<not> (\<exists>s \<in> set seq. embeds s t), pool', sched') \<and> pool_ok pool'"
proof (cases "seq = []")
  case True
  with assms show ?thesis by (simp add: isValidExtension_def)
next
  case False
  from submitAll_ok [OF assms, of seq t]
  obtain ms pool1 where sa: "submitAll pool seq t = (map msg_id ms, pool1)"
    and ok1: "pool_ok pool1" and tr: "\<forall>m \<in> set ms. tracks pool1 m"
    and v: "map (\<lambda>m. result (onmessage m)) ms = map (\<lambda>s. embeds s t) seq"
    by blast
  from awaitAll_ok [OF ok1 tr, of sched]
  obtain pool' sched' where aa: "awaitAll sched pool1 (map msg_id ms)
        = Some (\<not> (\<exists>m \<in> set ms. result (onmessage m)), pool', sched')"
    and ok': "pool_ok pool'" by blast
  have "(\<exists>m \<in> set ms. result (onmessage m)) = (\<exists>b \<in> set (map (\<lambda>m. result (onmessage m)) ms). b)"
    by auto
  also have "\<dots> = (\<exists>s \<in> set seq. embeds s t)"
    unfolding v by auto
  finally have "(\<exists>m \<in> set ms. result (onmessage m)) = (\<exists>s \<in> set seq. embeds s t)" .
  with aa sa False ok' show ?thesis
    by (simp add: isValidExtension_def)
qed

text \<open>
  C1, as stated, fails: on a pool without workers, and on a terminated pool, no request
  is ever posted, so the first promise stays pending and \<^verbatim>\<open>isValidExtension\<close> does not
  return, although no tree of the sequence embeds into the candidate.
\<close>

theorem isValidExtension_dead_pool_counterexample:
  "isValidExtension [] [Node 1 []] (Node 2 []) (new_WorkerPool 0) = None \<and>
   isValidExtension [] [Node 1 []] (Node 2 []) (terminate (new_WorkerPool 4)) = None \<and>
   \<not> embeds (Node 1 []) (Node 2 [])"
  by code_simp

text \<open>
  C1, amended: for every pool in a state \<open>pool_ok\<close> (a state that the constructor with
  at least one worker, \<^verbatim>\<open>submitEmbed\<close> and the workers' responses lead to), every
  candidate \<open>t\<close>, every sequence \<open>seq\<close> and every order in which the workers respond,
  \<^verbatim>\<open>isValidExtension(seq, t, pool)\<close> returns, it returns true exactly when no tree of
  \<open>seq\<close> embeds into \<open>t\<close>, and it leaves the pool in such a state.  For the empty
  sequence it returns true on every pool.  The result depends on the list of the
  \<^verbatim>\<open>embeds\<close> values only, and is false as soon as one of them is true.
\<close>

theorem isValidExtension_iff:
  assumes "pool_ok pool"
  shows "(\<exists>pool' sched'. isValidExtension sched seq t pool
            = Some (\<not> (\<exists>s \<in> set seq. embeds s t), pool', sched') \<and> pool_ok pool') \<and>
    isValidExtension sched [] t pool0 = Some (True, pool0, sched) \<and>
    (pool_ok pool2 \<longrightarrow> map (\<lambda>s. embeds s t) seq = map (\<lambda>s. embeds s t') seq' \<longrightarrow>
       map_option fst (isValidExtension sched seq t pool)
         = map_option fst (isValidExtension sched2 seq' t' pool2)) \<and>
    (embeds s t \<longrightarrow>
       map_option fst (isValidExtension sched (before @ s # after) t pool) = Some False)"
proof -
  have r: "map_option fst (isValidExtension sc sq c p) = Some (\<not> (\<exists>s \<in> set sq. embeds s c))"
    if "pool_ok p" for sc sq c p
    using isValidExtension_ok [OF that, of sc sq c] by auto
  have e: "(\<exists>s \<in> set seq. embeds s t) = (\<exists>s \<in> set seq'. embeds s t')"
    if "map (\<lambda>s. embeds s t) seq = map (\<lambda>s. embeds s t') seq'"
  proof -
    have "(\<exists>s \<in> set seq. embeds s t) = (\<exists>b \<in> set (map (\<lambda>s. embeds s t) seq). b)" by auto
    also have "\<dots> = (\<exists>s \<in> set seq'. embeds s t')" unfolding that by auto
    finally show ?thesis .
  qed
  have "map_option fst (isValidExtension sched seq t pool)
      = map_option fst (isValidExtension sched2 seq' t' pool2)"
    if "pool_ok pool2" "map (\<lambda>s. embeds s t) seq = map (\<lambda>s. embeds s t') seq'"
    by (simp only: r [OF assms] r [OF that(1)] e [OF that(2)])
  moreover have "map_option fst (isValidExtension sched (before @ s # after) t pool) = Some False"
    if "embeds s t"
    using r [OF assms, of sched "before @ s # after" t] that by auto
  moreover have "isValidExtension sched [] t pool0 = Some (True, pool0, sched)"
    by (simp add: isValidExtension_def)
  ultimately show ?thesis
    using isValidExtension_ok [OF assms, of sched seq t] by blast
qed

theorem isValidExtension_iff_witness:
  "pool_ok (new_WorkerPool 2) \<and> pool_ok (new_WorkerPool 1) \<and>
   (\<exists>pool' sched'.
      isValidExtension [1, 0] [Node 5 [], Node 1 [Node 2 []]] (Node 1 [Node 3 [], Node 2 []])
        (new_WorkerPool 2) = Some (False, pool', sched') \<and> pool_ok pool') \<and>
   isValidExtension [1, 0] [] (Node 1 [Node 3 [], Node 2 []]) (new_WorkerPool 0)
     = Some (True, new_WorkerPool 0, [1, 0]) \<and>
   map (\<lambda>s. embeds s (Node 1 [Node 3 [], Node 2 []])) [Node 5 [], Node 1 [Node 2 []]]
     = map (\<lambda>s. embeds s (Node 7 [])) [Node 6 [], Node 7 []] \<and>
   map_option fst (isValidExtension [1, 0] [Node 5 [], Node 1 [Node 2 []]]
       (Node 1 [Node 3 [], Node 2 []]) (new_WorkerPool 2))
     = map_option fst (isValidExtension [] [Node 6 [], Node 7 []] (Node 7 []) (new_WorkerPool 1)) \<and>
   embeds (Node 1 [Node 2 []]) (Node 1 [Node 3 [], Node 2 []]) \<and>
   map_option fst (isValidExtension [1, 0] ([Node 5 []] @ Node 1 [Node 2 []] # [Node 2 []])
       (Node 1 [Node 3 [], Node 2 []]) (new_WorkerPool 2)) = Some False"
proof -
  have h: "pool_ok (new_WorkerPool 2)" and h1: "pool_ok (new_WorkerPool 1)"
    by (simp_all add: pool_ok_new)
  have v: "map (\<lambda>s. embeds s (Node 1 [Node 3 [], Node 2 []])) [Node 5 [], Node 1 [Node 2 []]]
     = map (\<lambda>s. embeds s (Node 7 [])) [Node 6 [], Node 7 []]"
    by (simp add: embeds.simps rootEmbeds.simps)
  have e: "embeds (Node 1 [Node 2 []]) (Node 1 [Node 3 [], Node 2 []])"
    by (simp add: embeds.simps rootEmbeds.simps)
  then have x: "(\<not> (\<exists>s \<in> set [Node 5 [], Node 1 [Node 2 []]].
      embeds s (Node 1 [Node 3 [], Node 2 []]))) = False"
    by simp
  note T = isValidExtension_iff [OF h, where sched = "[1, 0]"
      and seq = "[Node 5 [], Node 1 [Node 2 []]]" and t = "Node 1 [Node 3 [], Node 2 []]"
      and ?pool0.0 = "new_WorkerPool 0" and ?pool2.0 = "new_WorkerPool 1"
      and t' = "Node 7 []" and seq' = "[Node 6 [], Node 7 []]" and ?sched2.0 = "[]"
      and s = "Node 1 [Node 2 []]" and before = "[Node 5 []]" and after = "[Node 2 []]"]
  show ?thesis
    using h h1 v e T unfolding x by blast
qed

section \<open>Properties of \<^verbatim>\<open>compositions\<close>\<close>

lemma sum_count_of: "0 < m \<Longrightarrow> (\<Sum>k<m. count_of k) = 2 ^ (m - 1)"
proof (induction m)
  case 0
  then show ?case by simp
next
  case (Suc n)
  show ?case
  proof (cases "n = 0")
    case True
    then show ?thesis by simp
  next
    case False
    then obtain m where "n = Suc m" by (cases n) auto
    with Suc show ?thesis by simp
  qed
qed

lemma length_compositions: "0 \<le> n \<Longrightarrow> length (compositions n) = count_of (nat n)"
proof (induction n rule: compositions.induct)
  case (1 n)
  show ?case
  proof (cases "n = 0")
    case True
    then show ?thesis by (simp add: compositions.simps)
  next
    case False
    with "1.prems" have pos: "0 < n" by simp
    have "length (compositions n)
        = sum_list (map (\<lambda>first. length (compositions (n - first))) [1..n])"
      using False by (subst compositions.simps) (simp add: length_concat comp_def)
    also have "\<dots> = sum_list (map (\<lambda>first. count_of (nat (n - first))) [1..n])"
      using "1.IH" [OF False] by (intro arg_cong [where f = sum_list] map_cong) auto
    also have "\<dots> = (\<Sum>first \<in> {1..n}. count_of (nat (n - first)))"
      by (simp add: sum_list_distinct_conv_sum_set)
    also have "\<dots> = (\<Sum>k<nat n. count_of k)"
      by (rule sum.reindex_bij_witness [where i = "\<lambda>k. n - int k" and j = "\<lambda>first. nat (n - first)"])
         auto
    also have "\<dots> = 2 ^ (nat n - 1)"
      using pos by (intro sum_count_of) simp
    finally show ?thesis using pos by simp
  qed
qed

text \<open>
  C5: for \<open>total \<ge> 1\<close>, \<^verbatim>\<open>compositions(total)\<close> yields \<open>2 ^ (total - 1)\<close> sequences,
  each of integers \<open>\<ge> 1\<close> with sum \<open>total\<close>; \<^verbatim>\<open>compositions(0)\<close> yields the empty
  sequence and nothing else.
\<close>

theorem compositions_count:
  "(1 \<le> n \<longrightarrow>
      length (compositions n) = 2 ^ nat (n - 1) \<and>
      (\<forall>c \<in> set (compositions n). (\<forall>p \<in> set c. 1 \<le> p) \<and> sum_list c = n)) \<and>
   compositions 0 = [[]]"
proof -
  have "length (compositions n) = 2 ^ nat (n - 1)" if n: "1 \<le> n"
  proof -
    from n have "nat n - 1 = nat (n - 1)" by simp
    with n show ?thesis by (simp add: length_compositions)
  qed
  moreover have "\<forall>c \<in> set (compositions n). (\<forall>p \<in> set c. 1 \<le> p) \<and> sum_list c = n"
    using compositions_parts by blast
  ultimately show ?thesis
    using compositions_0 by blast
qed

theorem compositions_count_witness:
  "(1::int) \<le> 3 \<and> compositions 3 = [[1, 1, 1], [1, 2], [2, 1], [3]] \<and>
   length (compositions 3) = 2 ^ nat (3 - 1) \<and>
   [1, 2] \<in> set (compositions 3) \<and> (1::int) \<le> 1 \<and> (1::int) \<le> 2 \<and>
   sum_list [1, 2::int] = 3"
proof -
  have v: "compositions 3 = [[1, 1, 1], [1, 2], [2, 1], [3]]" by code_simp
  have m: "[1, 2] \<in> set (compositions 3)" by (simp add: v)
  show ?thesis
    using compositions_count [of 3] v m by simp
qed

section \<open>Properties of the canonical key\<close>


lemma not_isDigit_punct [simp]:
  "\<not> isDigit CHR ''(''" "\<not> isDigit CHR '',''" "\<not> isDigit CHR '')''"
  by (simp_all add: isDigit_def)

lemma digit_val: "d < 10 \<Longrightarrow> (of_char (digit_char d) :: nat) - 48 = d"
  by (simp add: digit_char_def)

lemma digits_nonempty: "digits m \<noteq> []"
  by (subst digits.simps) simp


lemma digits_val_digits: "digits_val (digits m) = m"
proof (induction m rule: digits.induct)
  case (1 m)
  show ?case
  proof (cases "m < 10")
    case True
    then show ?thesis
      by (subst digits.simps) (simp add: digits_val_def digit_val)
  next
    case False
    have "digits_val (digits m) = 10 * digits_val (digits (m div 10)) + (m mod 10)"
      using False by (subst digits.simps) (simp add: digits_val_def digit_val)
    with "1.IH" [OF False] show ?thesis by simp
  qed
qed

lemma digits_inj: "digits a = digits b \<Longrightarrow> a = b"
  by (metis digits_val_digits)

lemma String_pos: "0 < l \<Longrightarrow> String l = digits (nat l)"
  by (simp add: String_def)

lemma String_inj: "0 < a \<Longrightarrow> 0 < b \<Longrightarrow> String a = String b \<Longrightarrow> a = b"
  using digits_inj [of "nat a" "nat b"] by (simp add: String_pos)





lemma treeKey_children:
  "treeKey t = String (label t) @
     (if children t = [] then [] else ''('' @ join '','' (map treeKey (children t)) @ '')'')"
  by (cases t) simp






section \<open>Properties of the enumeration\<close>

subsection \<open>The cartesian product\<close>

lemma cartesian_step_set:
  "set (fold (\<lambda>list acc. concat (map (\<lambda>prefix. map (\<lambda>item. prefix @ [item]) list) acc)) ls acc)
     = {p @ xs | p xs. p \<in> set acc \<and> list_all2 (\<lambda>x l. x \<in> set l) xs ls}"
proof (induction ls arbitrary: acc)
  case Nil
  then show ?case by simp
next
  case (Cons l ls)
  let ?acc1 = "concat (map (\<lambda>prefix. map (\<lambda>item. prefix @ [item]) l) acc)"
  have acc1: "set ?acc1 = {p @ [x] | p x. p \<in> set acc \<and> x \<in> set l}"
    by auto
  have "{q @ xs | q xs. q \<in> set ?acc1 \<and> list_all2 (\<lambda>x l. x \<in> set l) xs ls}
      = {p @ ys | p ys. p \<in> set acc \<and> list_all2 (\<lambda>x l. x \<in> set l) ys (l # ls)}"
    (is "?A = ?B")
  proof (intro set_eqI iffI)
    fix zs assume "zs \<in> ?A"
    then obtain q xs where q: "q \<in> set ?acc1" and xs: "list_all2 (\<lambda>x l. x \<in> set l) xs ls"
      and zs: "zs = q @ xs" by blast
    from q obtain p x where p: "p \<in> set acc" and x: "x \<in> set l" and qp: "q = p @ [x]"
      unfolding acc1 by blast
    have "zs = p @ (x # xs)" by (simp add: zs qp)
    moreover have "list_all2 (\<lambda>x l. x \<in> set l) (x # xs) (l # ls)" using x xs by simp
    ultimately show "zs \<in> ?B" using p by blast
  next
    fix zs assume "zs \<in> ?B"
    then obtain p ys where p: "p \<in> set acc" and ys: "list_all2 (\<lambda>x l. x \<in> set l) ys (l # ls)"
      and zs: "zs = p @ ys" by blast
    from ys obtain x xs where yx: "ys = x # xs" and x: "x \<in> set l"
      and xs: "list_all2 (\<lambda>x l. x \<in> set l) xs ls"
      by (auto simp: list_all2_Cons2)
    have "p @ [x] \<in> set ?acc1" unfolding acc1 using p x by blast
    moreover have "zs = (p @ [x]) @ xs" by (simp add: zs yx)
    ultimately show "zs \<in> ?A" using xs by blast
  qed
  then show ?case by (simp add: Cons.IH)
qed

lemma cartesian_fold:
  "cartesian ls =
     fold (\<lambda>list acc. concat (map (\<lambda>prefix. map (\<lambda>item. prefix @ [item]) list) acc)) ls [[]]"
  by (cases ls) (simp_all add: cartesian_def)

lemma set_cartesian: "set (cartesian ls) = {xs. list_all2 (\<lambda>x l. x \<in> set l) xs ls}"
  by (simp add: cartesian_fold cartesian_step_set)

lemma cartesian_nonempty: "\<forall>l \<in> set ls. l \<noteq> [] \<Longrightarrow> cartesian ls \<noteq> []"
proof -
  assume a: "\<forall>l \<in> set ls. l \<noteq> []"
  have "list_all2 (\<lambda>x l. x \<in> set l) (map hd ls) ls"
    using a by (induction ls) auto
  then have "map hd ls \<in> set (cartesian ls)" by (simp add: set_cartesian)
  then show ?thesis by auto
qed

subsection \<open>Deduplication by key\<close>

lemma seen_inv_add: "seen_inv seen \<Longrightarrow> seen_inv (seen_add t seen)"
  by (auto simp: seen_inv_def seen_add_def Let_def map_of_eq_None_iff)

lemma seen_inv_fold: "seen_inv seen \<Longrightarrow> seen_inv (fold seen_add ts seen)"
  by (induction ts arbitrary: seen) (auto simp: seen_inv_add)

lemma seen_inv_keys: "seen_inv seen \<Longrightarrow> map treeKey (map snd seen) = map fst seen"
  by (induction seen) (auto simp: seen_inv_def)

lemma seen_add_set:
  "snd ` set (seen_add t seen) \<subseteq> insert t (snd ` set seen)"
  by (auto simp: seen_add_def Let_def)

lemma seen_fold_subset: "snd ` set (fold seen_add ts seen) \<subseteq> snd ` set seen \<union> set ts"
proof (induction ts arbitrary: seen)
  case Nil
  then show ?case by simp
next
  case (Cons t ts)
  have "snd ` set (fold seen_add ts (seen_add t seen)) \<subseteq> snd ` set (seen_add t seen) \<union> set ts"
    by (rule Cons.IH)
  with seen_add_set [of t seen] show ?case by force
qed

lemma seen_add_keys: "fst ` set (seen_add t seen) = insert (treeKey t) (fst ` set seen)"
  by (auto simp: seen_add_def Let_def map_of_eq_None_iff)

lemma seen_fold_keys: "fst ` set (fold seen_add ts seen) = fst ` set seen \<union> treeKey ` set ts"
  by (induction ts arbitrary: seen) (auto simp: seen_add_keys)

lemma dedup_distinct_keys: "distinct (map treeKey (map snd (fold seen_add ts [])))"
proof -
  have i: "seen_inv (fold seen_add ts [])"
    by (rule seen_inv_fold) (simp add: seen_inv_def)
  then show ?thesis
    by (simp only: seen_inv_keys [OF i]) (simp add: seen_inv_def)
qed

lemma dedup_subset: "set (map snd (fold seen_add ts [])) \<subseteq> set ts"
  using seen_fold_subset [of ts "[]"] by simp

lemma dedup_nonempty: "ts \<noteq> [] \<Longrightarrow> map snd (fold seen_add ts []) \<noteq> []"
proof -
  assume "ts \<noteq> []"
  then have "fst ` set (fold seen_add ts []) \<noteq> {}"
    by (simp add: seen_fold_keys)
  then show ?thesis by auto
qed




subsection \<open>The lists computed without the cache\<close>

lemma treesOfSize0_1: "treesOfSize0 1 n = map (\<lambda>label. Node label []) [1..n]"
  by (subst treesOfSize0.simps) simp

lemma fold_concat: "fold f (concat xss) = fold (fold f) xss"
  by (induction xss) (simp_all add: fun_eq_iff)

lemma treesOfSize0_candidates:
  "sz \<noteq> 1 \<Longrightarrow> treesOfSize0 sz n = map snd (fold seen_add (candidates sz n) [])"
  by (subst treesOfSize0.simps) (simp add: candidates_def fold_concat fold_map comp_def)

lemma set_candidates:
  "set (candidates sz n) =
     {Node r combo | r c combo. 1 \<le> r \<and> r \<le> n \<and> c \<in> set (compositions (sz - 1)) \<and>
        list_all2 (\<lambda>x part. x \<in> set (treesOfSize0 part n)) combo c}"
  by (fastforce simp: candidates_def set_cartesian list_all2_map2)

lemma list_all2_map_eq:
  "list_all2 (\<lambda>x y. f x = y \<and> P x) xs ys \<Longrightarrow> map f xs = ys \<and> (\<forall>x \<in> set xs. P x)"
  by (induction rule: list_all2_induct) auto

lemma treesOfSize0_trees:
  "t \<in> set (treesOfSize0 sz n) \<Longrightarrow> nodeCount t = sz \<and> labels_in n t"
proof (induction sz n arbitrary: t rule: treesOfSize0.induct)
  case (1 sz n)
  show ?case
  proof (cases "sz = 1")
    case True
    with "1.prems" show ?thesis by (auto simp: treesOfSize0_1)
  next
    case False
    with "1.prems" have "t \<in> set (candidates sz n)"
      using dedup_subset [of "candidates sz n"] by (auto simp: treesOfSize0_candidates)
    then obtain r c combo where t: "t = Node r combo" and r: "1 \<le> r" "r \<le> n"
      and c: "c \<in> set (compositions (sz - 1))"
      and combo: "list_all2 (\<lambda>x part. x \<in> set (treesOfSize0 part n)) combo c"
      unfolding set_candidates by blast
    from r have r': "r \<in> set [1..n]" by simp
    have "list_all2 (\<lambda>x part. nodeCount x = part \<and> labels_in n x) combo c"
      using combo "1.IH" [OF False r' c] by (rule list.rel_mono_strong) blast
    then have "map nodeCount combo = c" and li: "\<forall>x \<in> set combo. labels_in n x"
      using list_all2_map_eq [of nodeCount "labels_in n" combo c] by blast+
    moreover have "sum_list c = sz - 1"
      using c compositions_parts by blast
    ultimately show ?thesis using r by (simp add: t)
  qed
qed

lemma compositions_nonempty: "0 \<le> m \<Longrightarrow> compositions m \<noteq> []"
proof -
  assume "0 \<le> m"
  then have "length (compositions m) = count_of (nat m)" by (rule length_compositions)
  then have "0 < length (compositions m)" by simp
  then show ?thesis by simp
qed

lemma treesOfSize0_nonempty: "1 \<le> sz \<Longrightarrow> 1 \<le> n \<Longrightarrow> treesOfSize0 sz n \<noteq> []"
proof (induction sz n rule: treesOfSize0.induct)
  case (1 sz n)
  show ?case
  proof (cases "sz = 1")
    case True
    with "1.prems" show ?thesis by (simp add: treesOfSize0_1)
  next
    case False
    from "1.prems" have r': "1 \<in> set [1..n]" by simp
    from "1.prems" False obtain c where c: "c \<in> set (compositions (sz - 1))"
      using compositions_nonempty [of "sz - 1"] by (cases "compositions (sz - 1)") auto
    have "\<forall>l \<in> set (map (\<lambda>part. treesOfSize0 part n) c). l \<noteq> []"
    proof
      fix l assume "l \<in> set (map (\<lambda>part. treesOfSize0 part n) c)"
      then obtain part where part: "part \<in> set c" and l: "l = treesOfSize0 part n" by auto
      from compositions_part_less [OF c part] have "1 \<le> part" by simp
      with "1.IH" [OF False r' c part] "1.prems"(2) l show "l \<noteq> []" by simp
    qed
    then have "cartesian (map (\<lambda>part. treesOfSize0 part n) c) \<noteq> []"
      by (rule cartesian_nonempty)
    then obtain combo where "combo \<in> set (cartesian (map (\<lambda>part. treesOfSize0 part n) c))"
      by (cases "cartesian (map (\<lambda>part. treesOfSize0 part n) c)") auto
    then have "Node 1 combo \<in> set (candidates sz n)"
      using c "1.prems"(2) by (auto simp: set_candidates set_cartesian list_all2_map2)
    then have "candidates sz n \<noteq> []" by auto
    then show ?thesis
      using False dedup_nonempty [of "candidates sz n"] by (simp add: treesOfSize0_candidates)
  qed
qed

lemma treesOfSize0_distinct_keys: "distinct (map treeKey (treesOfSize0 sz n))"
proof (cases "sz = 1")
  case True
  have "inj_on String (set [1..n])"
    by (rule inj_onI) (auto intro: String_inj)
  then have "distinct (map String [1..n])"
    by (simp add: distinct_map)
  then show ?thesis
    using True by (simp add: treesOfSize0_1 comp_def)
next
  case False
  then show ?thesis
    using dedup_distinct_keys [of "candidates sz n"] by (simp add: treesOfSize0_candidates)
qed

subsection \<open>The cached function computes the uncached lists\<close>

lemma fold_refine:
  assumes "\<And>x s c. x \<in> set xs \<Longrightarrow> I c \<Longrightarrow> fst (f x (s, c)) = g x s \<and> I (snd (f x (s, c)))"
    and "I c"
  shows "fst (fold f xs (s, c)) = fold g xs s \<and> I (snd (fold f xs (s, c)))"
  using assms
proof (induction xs arbitrary: s c)
  case Nil
  then show ?case by simp
next
  case (Cons x xs)
  have step: "fst (f x (s, c)) = g x s" "I (snd (f x (s, c)))"
    using Cons.prems(1) [of x c s] Cons.prems(2) by simp_all
  have "fold f (x # xs) (s, c) = fold f xs (fst (f x (s, c)), snd (f x (s, c)))"
    by simp
  also have "fst \<dots> = fold g xs (g x s) \<and> I (snd \<dots>)"
    using Cons.IH [of "snd (f x (s, c))" "fst (f x (s, c))"] Cons.prems(1) step
    by simp
  finally show ?case by simp
qed

lemma fold_snoc_map: "fold (\<lambda>x acc. acc @ [h x]) xs acc = acc @ map h xs"
  by (induction xs arbitrary: acc) simp_all

lemma cache_ok_update:
  "cache_ok c \<Longrightarrow> cache_ok (AList.update (sz, n) (treesOfSize0 sz n) c)"
  by (auto simp: cache_ok_def update_conv')

lemma treesOfSize_refines:
  "cache_ok c \<Longrightarrow>
     fst (treesOfSize c sz n) = treesOfSize0 sz n \<and> cache_ok (snd (treesOfSize c sz n))"
proof (induction "nat sz" arbitrary: sz c rule: less_induct)
  case less
  show ?case
  proof (cases "map_of c (sz, n)")
    case (Some cached)
    with less.prems have "cached = treesOfSize0 sz n" by (simp add: cache_ok_def)
    with Some less.prems show ?thesis by (subst (1 2) treesOfSize.simps) simp
  next
    case None
    show ?thesis
    proof (cases "sz = 1")
      case True
      with None less.prems show ?thesis
        using cache_ok_update [of c 1 n]
        by (subst (1 2) treesOfSize.simps) (simp add: treesOfSize0_1 Let_def)
    next
      case False
      let ?parts = "\<lambda>part (lists, cache).
          (let (ts, cache') = treesOfSize cache part n in (lists @ [ts], cache'))"
      let ?comps = "\<lambda>rootLabel comp (seen, cache).
          (let (subtreeLists, cache') = fold ?parts comp ([], cache);
               combos = cartesian subtreeLists
           in (fold (\<lambda>childrenCombo seen. seen_add (Node rootLabel childrenCombo) seen)
                 combos seen, cache'))"
      let ?roots = "\<lambda>rootLabel (seen, cache).
          fold (?comps rootLabel) (compositions (sz - 1)) (seen, cache)"
      let ?pcomps = "\<lambda>rootLabel comp seen.
          fold (\<lambda>childrenCombo seen. seen_add (Node rootLabel childrenCombo) seen)
            (cartesian (map (\<lambda>part. treesOfSize0 part n) comp)) seen"
      let ?proots = "\<lambda>rootLabel seen. fold (?pcomps rootLabel) (compositions (sz - 1)) seen"
      have parts: "fst (fold ?parts comp (acc, c')) = acc @ map (\<lambda>part. treesOfSize0 part n) comp
          \<and> cache_ok (snd (fold ?parts comp (acc, c')))"
        if comp: "comp \<in> set (compositions (sz - 1))" and ok: "cache_ok c'" for comp acc c'
      proof -
        have "fst (fold ?parts comp (acc, c')) = fold (\<lambda>part acc. acc @ [treesOfSize0 part n]) comp acc
            \<and> cache_ok (snd (fold ?parts comp (acc, c')))"
        proof (rule fold_refine [where I = cache_ok, OF _ ok])
          fix part s c''
          assume part: "part \<in> set comp" and ok'': "cache_ok c''"
          from compositions_part_less [OF comp part] have "nat part < nat sz" by auto
          from less.hyps [OF this ok'']
          show "fst (?parts part (s, c'')) = s @ [treesOfSize0 part n]
              \<and> cache_ok (snd (?parts part (s, c'')))"
            by (simp add: case_prod_beta Let_def)
        qed
        then show ?thesis by (simp add: fold_snoc_map)
      qed
      have comps: "fst (fold (?comps r) (compositions (sz - 1)) (seen, c'))
            = fold (?pcomps r) (compositions (sz - 1)) seen
          \<and> cache_ok (snd (fold (?comps r) (compositions (sz - 1)) (seen, c')))"
        if ok: "cache_ok c'" for r seen c'
      proof (rule fold_refine [where I = cache_ok, OF _ ok])
        fix comp s c''
        assume comp: "comp \<in> set (compositions (sz - 1))" and ok'': "cache_ok c''"
        from parts [OF comp ok'', of "[]"]
        show "fst (?comps r comp (s, c'')) = ?pcomps r comp s
            \<and> cache_ok (snd (?comps r comp (s, c'')))"
          by (simp add: case_prod_beta Let_def)
      qed
      have roots: "fst (fold ?roots [1..n] ([], c)) = fold ?proots [1..n] []
          \<and> cache_ok (snd (fold ?roots [1..n] ([], c)))"
      proof (rule fold_refine [where I = cache_ok, OF _ less.prems])
        fix r s c''
        assume "cache_ok c''"
        from comps [OF this, of r s]
        show "fst (?roots r (s, c'')) = ?proots r s \<and> cache_ok (snd (?roots r (s, c'')))"
          by simp
      qed
      define R where "R = fold ?roots [1..n] ([], c)"
      have v: "treesOfSize0 sz n = map snd (fold ?proots [1..n] [])"
        using False by (subst treesOfSize0.simps) simp
      with roots have r1: "map snd (fst R) = treesOfSize0 sz n" and r2: "cache_ok (snd R)"
        by (simp_all add: R_def)
      have "treesOfSize c sz n =
          (map snd (fst R), AList.update (sz, n) (map snd (fst R)) (snd R))"
        using None False unfolding R_def
        by (subst treesOfSize.simps) (simp add: case_prod_beta Let_def)
      then have "treesOfSize c sz n =
          (treesOfSize0 sz n, AList.update (sz, n) (treesOfSize0 sz n) (snd R))"
        by (simp only: r1)
      then show ?thesis
        using cache_ok_update [OF r2, of sz n] by simp
    qed
  qed
qed

lemma reachable_cache_ok: "reachable c \<Longrightarrow> cache_ok c"
  by (induction rule: reachable.induct) (simp_all add: cache_ok_def treesOfSize_refines [unfolded cache_ok_def])


section \<open>The claims about the key and the enumeration\<close>




text \<open>
  C2: for \<open>size \<ge> 1\<close> and \<open>n \<ge> 1\<close>, every tree that \<^verbatim>\<open>treesOfSize(size, n)\<close>
  returns has exactly \<open>size\<close> nodes, and no two entries of the returned list have the
  same key.  The cache is any cache that the program can have reached.
\<close>

theorem treesOfSize_nodeCount_keys:
  assumes "reachable c" "1 \<le> sz" "1 \<le> n"
  shows "(\<forall>t \<in> set (fst (treesOfSize c sz n)). nodeCount t = sz) \<and>
    distinct (map treeKey (fst (treesOfSize c sz n)))"
proof -
  have "fst (treesOfSize c sz n) = treesOfSize0 sz n"
    using treesOfSize_refines [OF reachable_cache_ok [OF assms(1)]] by simp
  then show ?thesis
    using treesOfSize0_trees [of _ sz n] treesOfSize0_distinct_keys [of sz n] by auto
qed

theorem treesOfSize_nodeCount_keys_witness:
  "reachable [] \<and> (1::int) \<le> 2 \<and>
   fst (treesOfSize [] 2 2)
     = [Node 1 [Node 1 []], Node 1 [Node 2 []], Node 2 [Node 1 []], Node 2 [Node 2 []]] \<and>
   Node 1 [Node 2 []] \<in> set (fst (treesOfSize [] 2 2)) \<and>
   nodeCount (Node 1 [Node 2 []]) = 2 \<and>
   distinct (map treeKey (fst (treesOfSize [] 2 2)))"
proof -
  have h: "reachable []" by (rule reachable.empty)
  have l: "(1::int) \<le> 2" by simp
  have v: "fst (treesOfSize [] 2 2)
     = [Node 1 [Node 1 []], Node 1 [Node 2 []], Node 2 [Node 1 []], Node 2 [Node 2 []]]"
    by code_simp
  have m: "Node 1 [Node 2 []] \<in> set (fst (treesOfSize [] 2 2))" by (simp add: v)
  have c: "nodeCount (Node 1 [Node 2 []]) = 2" by simp
  show ?thesis
    using h l v m c treesOfSize_nodeCount_keys [OF h l l] by blast
qed

text \<open>
  C7, as stated, fails: for \<open>n = 1\<close> the enumeration of size 2 returns the tree
  \<open>1(1)\<close>, which is not a single node, and \<open>1(1)\<close> does not embed into the single
  node.
\<close>

theorem single_label_counterexample:
  "fst (treesOfSize [] 2 1) = [Node 1 [Node 1 []]] \<and>
   Node 1 [Node 1 []] \<noteq> Node 1 [] \<and>
   \<not> embeds (Node 1 [Node 1 []]) (Node 1 [])"
proof -
  have "fst (treesOfSize [] 2 1) = [Node 1 [Node 1 []]]" by code_simp
  moreover have "\<not> embeds (Node 1 [Node 1 []]) (Node 1 [])"
    by (simp add: embeds.simps rootEmbeds.simps)
  ultimately show ?thesis by simp
qed

text \<open>
  C7, amended: for \<open>n = 1\<close>, \<^verbatim>\<open>treesOfSize(1, 1)\<close> is the single node with label 1,
  and every tree of \<^verbatim>\<open>treesOfSize(size, 1)\<close> has \<open>size\<close> nodes and carries the label 1
  on all of them.  The single node embeds into each of these trees, so on every pool in
  a state \<open>pool_ok\<close> and for every order in which the workers respond,
  \<^verbatim>\<open>isValidExtension\<close> returns false for each of them and the sequence that consists
  of the single node.
\<close>

theorem single_label_trees:
  assumes "reachable c" "pool_ok pool"
  shows "fst (treesOfSize c 1 1) = [Node 1 []] \<and>
    (\<forall>t \<in> set (fst (treesOfSize c sz 1)).
       nodeCount t = sz \<and> labels_in 1 t \<and> embeds (Node 1 []) t \<and>
       map_option fst (isValidExtension sched [Node 1 []] t pool) = Some False)"
proof -
  have r: "fst (treesOfSize c s 1) = treesOfSize0 s 1" for s
    using treesOfSize_refines [OF reachable_cache_ok [OF assms(1)]] by simp
  have "nodeCount t = sz \<and> labels_in 1 t \<and> embeds (Node 1 []) t \<and>
      map_option fst (isValidExtension sched [Node 1 []] t pool) = Some False"
    if "t \<in> set (treesOfSize0 sz 1)" for t
  proof -
    from that have n: "nodeCount t = sz" and l: "labels_in 1 t"
      using treesOfSize0_trees by blast+
    from l have "label t = 1" by (cases t) simp
    then have e: "embeds (Node 1 []) t" by (simp add: embeds.simps rootEmbeds.simps)
    then have "map_option fst (isValidExtension sched [Node 1 []] t pool) = Some False"
      using isValidExtension_ok [OF assms(2), of sched "[Node 1 []]" t] by auto
    with n l e show ?thesis by blast
  qed
  then show ?thesis
    by (simp add: r treesOfSize0_1)
qed

theorem single_label_trees_witness:
  "reachable [] \<and> pool_ok (new_WorkerPool 4) \<and> fst (treesOfSize [] 1 1) = [Node 1 []] \<and>
   Node 1 [Node 1 []] \<in> set (fst (treesOfSize [] 2 1)) \<and>
   nodeCount (Node 1 [Node 1 []]) = 2 \<and>
   labels_in 1 (Node 1 [Node 1 []]) \<and> embeds (Node 1 []) (Node 1 [Node 1 []]) \<and>
   map_option fst (isValidExtension [2, 0] [Node 1 []] (Node 1 [Node 1 []]) (new_WorkerPool 4))
     = Some False"
proof -
  have h: "reachable []" by (rule reachable.empty)
  have k: "pool_ok (new_WorkerPool 4)" by (simp add: pool_ok_new)
  have "fst (treesOfSize [] 2 1) = [Node 1 [Node 1 []]]" by code_simp
  then have m: "Node 1 [Node 1 []] \<in> set (fst (treesOfSize [] 2 1))" by simp
  show ?thesis
    using h k m single_label_trees [OF h k, of 2 "[2, 0]"]
    by blast
qed

subsection \<open>The generator\<close>

lemma allTrees_loop_eq:
  "cache_ok c \<Longrightarrow>
     fst (allTrees_loop k c sz n) = concat (map (\<lambda>s. treesOfSize0 s n) [sz..sz + int k - 1]) \<and>
     cache_ok (snd (allTrees_loop k c sz n))"
proof (induction k arbitrary: c sz)
  case 0
  then show ?case by simp
next
  case (Suc k)
  have r: "fst (treesOfSize c sz n) = treesOfSize0 sz n" "cache_ok (snd (treesOfSize c sz n))"
    using treesOfSize_refines [OF Suc.prems] by simp_all
  have u: "[sz..sz + int k] = sz # [sz + 1..sz + int k]"
    by (subst upto_rec1) simp_all
  from Suc.IH [OF r(2), of "sz + 1"] r show ?case
    by (simp add: u case_prod_beta Let_def)
qed


text \<open>
  C6, as stated, fails for the version of \<^verbatim>\<open>allTrees\<close> on IndexedDB: on the cache left
  by \<^verbatim>\<open>treesOfSize(2, 1)\<close> it starts at size 2, so the first tree it yields is
  \<open>1(1)\<close> and not the tree of size 1.
\<close>

theorem allTrees_resume_counterexample:
  "fst (allTrees_idb 1 (snd (treesOfSize [] 2 1)) 1) = [Node 1 [Node 1 []]] \<and>
   fst (treesOfSize (snd (treesOfSize [] 2 1)) 1 1) = [Node 1 []]"
  by code_simp

lemma getMaxCachedSizeForN_fold:
  "0 \<le> m \<Longrightarrow>
     0 \<le> fold (\<lambda>((sizePart, nPart), trees) maxSize.
               if nPart = n \<and> sizePart > maxSize then sizePart else maxSize) c (m::int)"
  by (induction c arbitrary: m) (auto split: prod.splits)

lemma getMaxCachedSizeForN_nonneg: "0 \<le> getMaxCachedSizeForN c n"
  unfolding getMaxCachedSizeForN_def by (rule getMaxCachedSizeForN_fold) simp

text \<open>
  C6, amended: for \<open>n \<ge> 1\<close>, the synchronous \<^verbatim>\<open>allTrees(n)\<close> yields all of
  \<^verbatim>\<open>treesOfSize(1, n)\<close> in order, then all of \<^verbatim>\<open>treesOfSize(2, n)\<close>, and so on.  The
  version on IndexedDB resumes from the cache: it yields all of \<^verbatim>\<open>treesOfSize(s0, n)\<close>
  in order, then all of \<^verbatim>\<open>treesOfSize(s0 + 1, n)\<close>, and so on, from a start size \<open>s0\<close>
  that is 1 when no size is cached for \<open>n\<close> and otherwise lies between 1 and one past
  the largest cached size.  Each of these lists is non-empty, so the sequence never
  ends, and every tree of \<^verbatim>\<open>treesOfSize(s, n)\<close> from the start size on is yielded within
  the first \<open>s - s0 + 1\<close> rounds.
\<close>

theorem allTrees_sizes:
  assumes "reachable c" "reachable c'" "1 \<le> n"
  shows "fst (allTrees k c n) = concat (map (\<lambda>s. fst (treesOfSize c' s n)) [1..int k]) \<and>
    (\<exists>s0. 1 \<le> s0 \<and> s0 \<le> getMaxCachedSizeForN c n + 1 \<and>
       (getMaxCachedSizeForN c n = 0 \<longrightarrow> s0 = 1) \<and>
       (\<forall>j. fst (allTrees_idb j c n)
          = concat (map (\<lambda>s. fst (treesOfSize c' s n)) [s0..s0 + int j - 1])) \<and>
       (\<forall>s \<ge> s0. \<forall>t \<in> set (fst (treesOfSize c' s n)).
          t \<in> set (fst (allTrees_idb (nat (s - s0 + 1)) c n)))) \<and>
    (\<forall>s \<ge> 1. fst (treesOfSize c' s n) \<noteq> []) \<and>
    (\<forall>s \<ge> 1. \<forall>t \<in> set (fst (treesOfSize c' s n)). t \<in> set (fst (allTrees (nat s) c n)))"
proof -
  have c: "cache_ok c" and c': "cache_ok c'"
    using assms(1,2) by (simp_all add: reachable_cache_ok)
  have t: "fst (treesOfSize c' s n) = treesOfSize0 s n" for s
    using treesOfSize_refines [OF c'] by simp
  define s0 where "s0 = max 1 (getMaxCachedSizeForN c n)"
  have s0: "(if getMaxCachedSizeForN c n > 0 then getMaxCachedSizeForN c n else 1) = s0"
    by (simp add: s0_def)
  have r: "1 \<le> s0" "s0 \<le> getMaxCachedSizeForN c n + 1" "getMaxCachedSizeForN c n = 0 \<longrightarrow> s0 = 1"
    using getMaxCachedSizeForN_nonneg [of c n] by (auto simp: s0_def)
  have a: "fst (allTrees k c n) = concat (map (\<lambda>s. treesOfSize0 s n) [1..int k])" for k
    using allTrees_loop_eq [OF c, of k 1 n] by (simp add: allTrees_def)
  have b: "fst (allTrees_idb j c n) = concat (map (\<lambda>s. treesOfSize0 s n) [s0..s0 + int j - 1])"
    for j
    using allTrees_loop_eq [OF c, of j s0 n]
    by (simp only: allTrees_idb_def Let_def s0)
  have ne: "\<forall>s \<ge> 1. treesOfSize0 s n \<noteq> []"
    using assms(3) by (simp add: treesOfSize0_nonempty)
  have m1: "\<forall>s \<ge> 1. \<forall>t \<in> set (treesOfSize0 s n). t \<in> set (fst (allTrees (nat s) c n))"
    unfolding a by auto
  have m2: "\<forall>s \<ge> s0. \<forall>t \<in> set (treesOfSize0 s n).
       t \<in> set (fst (allTrees_idb (nat (s - s0 + 1)) c n))"
    unfolding b by auto
  show ?thesis
    unfolding t using a b ne m1 m2 r by blast
qed

theorem allTrees_sizes_witness:
  "reachable [] \<and> reachable (snd (treesOfSize [] 2 1)) \<and> (1::int) \<le> 1 \<and>
   fst (allTrees 2 [] 1) = [Node 1 [], Node 1 [Node 1 []]] \<and>
   fst (allTrees 2 [] 1) = concat (map (\<lambda>s. fst (treesOfSize [] s 1)) [1..int 2]) \<and>
   getMaxCachedSizeForN [] 1 = 0 \<and>
   fst (allTrees_idb 2 [] 1) = concat (map (\<lambda>s. fst (treesOfSize [] s 1)) [1..1 + int 2 - 1]) \<and>
   (\<exists>s0. 1 \<le> s0 \<and> s0 \<le> getMaxCachedSizeForN (snd (treesOfSize [] 2 1)) 1 + 1 \<and>
      fst (allTrees_idb 2 (snd (treesOfSize [] 2 1)) 1)
        = concat (map (\<lambda>s. fst (treesOfSize [] s 1)) [s0..s0 + int 2 - 1])) \<and>
   (2::int) \<ge> 1 \<and> fst (treesOfSize [] 2 1) \<noteq> [] \<and>
   Node 1 [Node 1 []] \<in> set (fst (treesOfSize [] 2 1)) \<and>
   Node 1 [Node 1 []] \<in> set (fst (allTrees (nat 2) [] 1)) \<and>
   Node 1 [Node 1 []] \<in> set (fst (allTrees_idb (nat (2 - 1 + 1)) [] 1))"
proof -
  have h: "reachable []" by (rule reachable.empty)
  have h2: "reachable (snd (treesOfSize [] 2 1))" by (rule reachable.call [OF h])
  have l: "(1::int) \<le> 1" by simp
  have v: "fst (allTrees 2 [] 1) = [Node 1 [], Node 1 [Node 1 []]]" by code_simp
  have g: "getMaxCachedSizeForN [] 1 = 0" by (simp add: getMaxCachedSizeForN_def)
  have "fst (treesOfSize [] 2 1) = [Node 1 [Node 1 []]]" by code_simp
  then have m: "Node 1 [Node 1 []] \<in> set (fst (treesOfSize [] 2 1))" by simp
  note a = allTrees_sizes [OF h h l, of 2]
  note b = allTrees_sizes [OF h2 h l, of 2]
  have s: "(2::int) \<ge> 1" by simp
  from a obtain s0 where s0: "getMaxCachedSizeForN [] 1 = 0 \<longrightarrow> s0 = 1"
    and j0: "\<forall>j. fst (allTrees_idb j [] 1)
          = concat (map (\<lambda>s. fst (treesOfSize [] s 1)) [s0..s0 + int j - 1])"
    and m0: "\<forall>s \<ge> s0. \<forall>t \<in> set (fst (treesOfSize [] s 1)).
          t \<in> set (fst (allTrees_idb (nat (s - s0 + 1)) [] 1))"
    by blast
  from s0 g have one: "s0 = 1" by simp
  have i1: "fst (allTrees_idb 2 [] 1)
      = concat (map (\<lambda>s. fst (treesOfSize [] s 1)) [1..1 + int 2 - 1])"
    using j0 unfolding one by blast
  have i2: "Node 1 [Node 1 []] \<in> set (fst (allTrees_idb (nat (2 - 1 + 1)) [] 1))"
    using m0 m s unfolding one by blast
  from b obtain s1 where "1 \<le> s1" "s1 \<le> getMaxCachedSizeForN (snd (treesOfSize [] 2 1)) 1 + 1"
    "\<forall>j. fst (allTrees_idb j (snd (treesOfSize [] 2 1)) 1)
          = concat (map (\<lambda>s. fst (treesOfSize [] s 1)) [s1..s1 + int j - 1])"
    by blast
  then have i3: "\<exists>s0. 1 \<le> s0 \<and> s0 \<le> getMaxCachedSizeForN (snd (treesOfSize [] 2 1)) 1 + 1 \<and>
      fst (allTrees_idb 2 (snd (treesOfSize [] 2 1)) 1)
        = concat (map (\<lambda>s. fst (treesOfSize [] s 1)) [s0..s0 + int 2 - 1])"
    by blast
  from a s m have i4: "fst (treesOfSize [] 2 1) \<noteq> []"
    "Node 1 [Node 1 []] \<in> set (fst (allTrees (nat 2) [] 1))" by blast+
  from a have i5: "fst (allTrees 2 [] 1) = concat (map (\<lambda>s. fst (treesOfSize [] s 1)) [1..int 2])"
    by blast
  show ?thesis
    using h h2 l v g m s i1 i2 i3 i4 i5 by blast
qed

end
